theory Spec2Isabelle
  imports Main
begin

section \<open>Rule content trees\<close>

text \<open>
  Modelled from the spec: the Rule Content Tree of \<^verbatim>\<open>sphinx_a4doc/model/model.py\<close>,
  which \<^verbatim>\<open>impl.py\<close> only imports. The variants and their fields are the ones of
  the spec's data model; \<^verbatim>\<open>EMPTY\<close> and \<^verbatim>\<open>WILDCARD\<close> are the constants
  \<open>Empty\<close> and \<open>Wildcard\<close>. A \<open>Reference\<close> holds its owning model (an object,
  here its address in the store of models) and a name. Equality of trees is structural.
\<close>

datatype rule_content =
    Empty
  | Wildcard
  | Literal string
  | CharSet string
  | Range string string
  | Reference nat string
  | Negation rule_content
  | Sequence "rule_content list"
  | Alternative "rule_content list"
  | Maybe rule_content
  | OnePlus rule_content
  | ZeroPlus rule_content

text \<open>The \<^verbatim>\<open>isinstance\<close> tests of the loaders.\<close>

fun isinstance_Maybe :: "rule_content \<Rightarrow> bool" where
  "isinstance_Maybe (Maybe c) = True"
| "isinstance_Maybe other = False"

fun isinstance_Alternative :: "rule_content \<Rightarrow> bool" where
  "isinstance_Alternative (Alternative cs) = True"
| "isinstance_Alternative other = False"

fun isinstance_Sequence :: "rule_content \<Rightarrow> bool" where
  "isinstance_Sequence (Sequence cs) = True"
| "isinstance_Sequence other = False"

fun isinstance_Literal :: "rule_content \<Rightarrow> bool" where
  "isinstance_Literal (Literal s) = True"
| "isinstance_Literal other = False"

section \<open>Strings\<close>

text \<open>\<^verbatim>\<open>str.startswith\<close>.\<close>

definition startswith :: "string \<Rightarrow> string \<Rightarrow> bool" where
  "startswith s p = (take (length p) s = p)"

section \<open>The combinators of RuleLoader\<close>

text \<open>
  \<^verbatim>\<open>RuleLoader.wrap_suffix(element, suffix)\<close>. The suffix is a parse-tree node or
  \<^verbatim>\<open>None\<close>; only its text is read, so it is the option of that text.
\<close>

definition wrap_suffix :: "rule_content \<Rightarrow> string option \<Rightarrow> rule_content" where
  "wrap_suffix element suffix =
     (if element = Empty then element
      else case suffix of
        None \<Rightarrow> element
      | Some suffix_text \<Rightarrow>
          if startswith suffix_text ''?'' then
            (if isinstance_Maybe element then element else Maybe element)
          else if startswith suffix_text ''+'' then OnePlus element
          else if startswith suffix_text ''*'' then ZeroPlus element
          else element)"

text \<open>
  \<^verbatim>\<open>RuleLoader.make_alt_rule(content)\<close>. The source first visits every node of
  \<^verbatim>\<open>content\<close> (a list comprehension) and then loops over the results; the
  functions below take the list of results. \<open>alt_loop\<close> is the loop, its state the
  pair of \<^verbatim>\<open>has_empty_alt\<close> and \<^verbatim>\<open>alts\<close>.
\<close>

fun alt_loop :: "rule_content list \<Rightarrow> bool \<times> rule_content list \<Rightarrow> bool \<times> rule_content list" where
  "alt_loop [] (has_empty_alt, alts) = (has_empty_alt, alts)"
| "alt_loop (alt # rest) (has_empty_alt, alts) =
     (let (has_empty_alt, alt) =
            (case alt of Maybe c \<Rightarrow> (True, c) | other \<Rightarrow> (has_empty_alt, alt))
      in if alt = Empty then alt_loop rest (True, alts)
         else case alt of
           Alternative cs \<Rightarrow> alt_loop rest (has_empty_alt, alts @ cs)
         | other \<Rightarrow> alt_loop rest (has_empty_alt, alts @ [alt]))"

definition make_alt_rule :: "rule_content list \<Rightarrow> rule_content" where
  "make_alt_rule content =
     (case alt_loop content (False, []) of
        (has_empty_alt, alts) \<Rightarrow>
          if length alts = 0 then Empty
          else if length alts = 1 \<and> has_empty_alt then Maybe (alts ! 0)
          else if length alts = 1 then alts ! 0
          else let rule = Alternative alts
               in if has_empty_alt then Maybe rule else rule)"

text \<open>\<^verbatim>\<open>RuleLoader.make_seq_rule(content)\<close>, on the list of visited results.\<close>

fun seq_loop :: "rule_content list \<Rightarrow> rule_content list \<Rightarrow> rule_content list" where
  "seq_loop [] elements = elements"
| "seq_loop (element # rest) elements =
     (case element of
        Sequence cs \<Rightarrow> seq_loop rest (elements @ cs)
      | other \<Rightarrow> seq_loop rest (elements @ [element]))"

definition make_seq_rule :: "rule_content list \<Rightarrow> rule_content" where
  "make_seq_rule content =
     (let elements = seq_loop content []
      in if length elements = 1 then elements ! 0 else Sequence elements)"

section \<open>The spec's reading of the combinators\<close>

text \<open>
  The definitions of this section follow the words of the spec, not the code; the
  theorems below compare them with the loops above.

  Steps (a) to (c) of the Alternative combinator: a \<open>Maybe\<close> child is unwrapped, an
  \<open>Empty\<close> child is dropped, an \<open>Alternative\<close> child is replaced by its children.
  \<open>alt_items x\<close> are the children that remain of the sub-result \<open>x\<close>, and an empty
  alternative is recorded when some sub-result is a \<open>Maybe\<close> or \<open>Empty\<close>.
\<close>

definition unwrap_Maybe :: "rule_content \<Rightarrow> rule_content" where
  "unwrap_Maybe x = (case x of Maybe c \<Rightarrow> c | other \<Rightarrow> x)"

definition alt_items :: "rule_content \<Rightarrow> rule_content list" where
  "alt_items x =
     (let y = unwrap_Maybe x
      in if y = Empty then [] else case y of Alternative cs \<Rightarrow> cs | other \<Rightarrow> [y])"

definition remaining_children :: "rule_content list \<Rightarrow> rule_content list" where
  "remaining_children content = concat (map alt_items content)"

definition empty_alt_recorded :: "rule_content list \<Rightarrow> bool" where
  "empty_alt_recorded content = list_ex (\<lambda>x. isinstance_Maybe x \<or> x = Empty) content"

text \<open>
  A sub-result that none of the steps (a) to (c) touches: it stays one child. The letters
  \<open>a\<close> and \<open>b\<close> of the spec's examples stand for such sub-results.
\<close>

definition kept_child :: "rule_content \<Rightarrow> bool" where
  "kept_child x = (x \<noteq> Empty \<and> \<not> isinstance_Maybe x \<and> \<not> isinstance_Alternative x)"

text \<open>The Sequence combinator replaces a \<open>Sequence\<close> sub-result by its children.\<close>

definition seq_items :: "rule_content \<Rightarrow> rule_content list" where
  "seq_items x = (case x of Sequence cs \<Rightarrow> cs | other \<Rightarrow> [x])"

text \<open>
  The invariant of the data model, at every node of a tree: a \<open>Sequence\<close> has at least
  two children and none of them is a \<open>Sequence\<close>, likewise an \<open>Alternative\<close>, and the
  child of a \<open>Maybe\<close> is not a \<open>Maybe\<close>.
\<close>

fun invariant :: "rule_content \<Rightarrow> bool" where
  "invariant (Negation c) = invariant c"
| "invariant (Sequence cs) =
     (2 \<le> length cs \<and> list_all (\<lambda>c. \<not> isinstance_Sequence c \<and> invariant c) cs)"
| "invariant (Alternative cs) =
     (2 \<le> length cs \<and> list_all (\<lambda>c. \<not> isinstance_Alternative c \<and> invariant c) cs)"
| "invariant (Maybe c) = (\<not> isinstance_Maybe c \<and> invariant c)"
| "invariant (OnePlus c) = invariant c"
| "invariant (ZeroPlus c) = invariant c"
| "invariant other = True"

section \<open>Python strings\<close>

text \<open>
  A Python \<^verbatim>\<open>str\<close> is a list of code points; here it is a \<open>string\<close>, so a
  \<open>char\<close> stands for a code point below 256. \<open>isspace\<close> is the whitespace of
  \<^verbatim>\<open>str.strip()\<close>, of \<^verbatim>\<open>int()\<close> and of \<^verbatim>\<open>\s\<close> in a \<^verbatim>\<open>re.UNICODE\<close>
  pattern, on these code points.
\<close>

definition isspace :: "char \<Rightarrow> bool" where
  "isspace c =
     (c \<in> set [CHR 0x09, CHR 0x0A, CHR 0x0B, CHR 0x0C, CHR 0x0D, CHR 0x1C, CHR 0x1D,
                CHR 0x1E, CHR 0x1F, CHR 0x20, CHR 0x85, CHR 0xA0])"

definition lstrip :: "string \<Rightarrow> string" where
  "lstrip s = dropWhile isspace s"

definition rstrip :: "string \<Rightarrow> string" where
  "rstrip s = rev (dropWhile isspace (rev s))"

definition strip :: "string \<Rightarrow> string" where
  "strip s = lstrip (rstrip s)"

text \<open>
  \<^verbatim>\<open>str.splitlines()\<close>: a line ends at a line feed, a carriage return (with the line
  feed after it, if any), a vertical tab, a form feed, a file, group or record separator
  or a next-line character; no empty line is added after the last line end.
\<close>

definition is_linebreak :: "char \<Rightarrow> bool" where
  "is_linebreak c =
     (c \<in> set [CHR 0x0A, CHR 0x0B, CHR 0x0C, CHR 0x0D, CHR 0x1C, CHR 0x1D, CHR 0x1E, CHR 0x85])"

fun splitlines_from :: "string \<Rightarrow> string \<Rightarrow> string list" where
  "splitlines_from cur [] = (if cur = [] then [] else [cur])"
| "splitlines_from cur [c] = (if is_linebreak c then [cur] else [cur @ [c]])"
| "splitlines_from cur (c # d # cs) =
     (if c = CHR 0x0D \<and> d = CHR 0x0A then cur # splitlines_from [] cs
      else if is_linebreak c then cur # splitlines_from [] (d # cs)
      else splitlines_from (cur @ [c]) (d # cs))"

definition splitlines :: "string \<Rightarrow> string list" where
  "splitlines s = splitlines_from [] s"

text \<open>\<^verbatim>\<open>sep.join(xs)\<close>.\<close>

fun str_join :: "string \<Rightarrow> string list \<Rightarrow> string" where
  "str_join sep [] = []"
| "str_join sep [x] = x"
| "str_join sep (x # y # ys) = x @ sep @ str_join sep (y # ys)"

text \<open>
  \<^verbatim>\<open>int(s)\<close> on a string: whitespace around is skipped, then an optional sign and
  decimal digits, where one underscore may stand between two digits. \<open>None\<close> is the
  \<^verbatim>\<open>ValueError\<close>. (The limit on the number of digits of recent interpreters is not
  modelled.)
\<close>

definition is_digit :: "char \<Rightarrow> bool" where
  "is_digit c = (48 \<le> (of_char c :: nat) \<and> (of_char c :: nat) \<le> 57)"

definition digit_value :: "char \<Rightarrow> int" where
  "digit_value c = int (of_char c) - 48"

fun int_digits_ok :: "string \<Rightarrow> bool" where
  "int_digits_ok [] = False"
| "int_digits_ok [c] = is_digit c"
| "int_digits_ok (c # d # cs) =
     (is_digit c \<and> (if d = CHR ''_'' then int_digits_ok cs else int_digits_ok (d # cs)))"

definition py_int :: "string \<Rightarrow> int option" where
  "py_int s =
     (let t = strip s;
          (negative, body) =
            (case t of
               [] \<Rightarrow> (False, t)
             | c # cs \<Rightarrow>
                 if c = CHR ''-'' then (True, cs)
                 else if c = CHR ''+'' then (False, cs)
                 else (False, t))
      in if int_digits_ok body then
           Some ((if negative then - 1 else 1) *
                 foldl (\<lambda>a c. 10 * a + digit_value c) 0 (filter (\<lambda>c. c \<noteq> CHR ''_'') body))
         else None)"

section \<open>The directive pattern\<close>

text \<open>
  \<^verbatim>\<open>CMD_RE = //@\s*doc\s*:\s*(?P<cmd>[a-zA-Z0-9_-]+)\s*(?P<ctx>.*)\<close> (verbose mode, so
  the blanks of the source pattern match nothing), applied with \<^verbatim>\<open>match\<close>, that is
  at the start of the text. Each greedy \<^verbatim>\<open>\s*\<close> is followed by a character that is no
  whitespace, the command class holds no whitespace, and \<^verbatim>\<open>.*\<close> accepts every rest,
  so the greedy match never backtracks: it is the left-to-right scan below. The result is
  the pair of the groups \<^verbatim>\<open>cmd\<close> and \<^verbatim>\<open>ctx\<close>; \<^verbatim>\<open>.\<close> stops at a line feed.
\<close>

definition is_cmd_char :: "char \<Rightarrow> bool" where
  "is_cmd_char c =
     (let n = (of_char c :: nat)
      in (97 \<le> n \<and> n \<le> 122) \<or> (65 \<le> n \<and> n \<le> 90) \<or> (48 \<le> n \<and> n \<le> 57)
         \<or> c = CHR ''_'' \<or> c = CHR ''-'')"

definition CMD_RE_match :: "string \<Rightarrow> (string \<times> string) option" where
  "CMD_RE_match s =
     (if \<not> startswith s ''//@'' then None
      else let r = dropWhile isspace (drop 3 s) in
        if \<not> startswith r ''doc'' then None
        else let r = dropWhile isspace (drop 3 r) in
          if \<not> startswith r '':'' then None
          else let r = dropWhile isspace (drop 1 r);
                   cmd = takeWhile is_cmd_char r;
                   r = dropWhile isspace (dropWhile is_cmd_char r)
               in if cmd = [] then None
                  else Some (cmd, takeWhile (\<lambda>c. c \<noteq> CHR 0x0A) r))"

section \<open>Diagnostics, errors and the environment\<close>

text \<open>
  Modelled from the spec: \<^verbatim>\<open>Position\<close> of \<^verbatim>\<open>model.py\<close>, a file path and a line
  number.
\<close>

type_synonym position = "string \<times> int"

text \<open>
  A call of \<^verbatim>\<open>logger.error\<close> or \<^verbatim>\<open>logger.warning\<close> is a diagnostic: the severity
  and the message, which is one of the source's format strings with the values it prints.
\<close>

datatype severity = Error | Warning

datatype message =
    SyntaxErrorMessage string int string
  | FileNotFound string
  | ImportsNotAllowed
  | InvalidCommand position string
  | ImportanceRequiresInteger position
  | ImportanceNegative position
  | NameRequiresArgument position
  | UnknownCommand position string
  | ArgumentIgnored string

type_synonym diagnostic = "severity \<times> message"

text \<open>
  The exceptions the code can raise: unpacking an empty list in \<^verbatim>\<open>load_docs\<close>, a file
  that exists and cannot be opened (\<open>OSError\<close>) or decoded (\<open>UnicodeDecodeError\<close>),
  and the assertions of \<^verbatim>\<open>ModelImpl.add_import\<close>.
\<close>

datatype error = ValueError | OSError | UnicodeDecodeError | AssertionError

text \<open>A comment token of a rule's \<^verbatim>\<open>docs\<close>: its text and its line.\<close>

record comment_token =
  token_text :: string
  token_line :: int

section \<open>The parse tree\<close>

text \<open>
  Modelled from the spec: the parse tree of the external parser. The grammar of grammars
  and its generated parser (\<^verbatim>\<open>sphinx_a4doc.syntax\<close>) are not part of \<^verbatim>\<open>impl.py\<close>;
  the spec names the kinds of nodes (rule specs, alternative lists, elements, atoms, options,
  delegate declarations, tokens blocks), and the nodes and fields below are those that the
  visit methods of the loaders name and read.
  A node whose visit method no loader overrides and which has one child passes that
  child's result on (\<^verbatim>\<open>visitChildren\<close>) and is left out.

  \<open>atom_ctx\<close> holds the nodes that occur in lexer and in parser rules: fields are
  \<^verbatim>\<open>start.text\<close> and \<^verbatim>\<open>end.text\<close> of a character range, \<^verbatim>\<open>value.text\<close> or
  \<^verbatim>\<open>value\<close> of the others, \<^verbatim>\<open>elements\<close> of a block set.
\<close>

datatype atom_ctx =
    CharacterRange string string
  | TerminalRef string
  | TerminalLit string
  | NotElement atom_ctx
  | NotBlock atom_ctx
  | BlockSet "atom_ctx list"
  | SetElementRef string
  | SetElementLit string
  | SetElementCharSet string

text \<open>
  The body of a lexer rule. An element holds \<^verbatim>\<open>value\<close> and the text of
  \<^verbatim>\<open>suffix\<close>, if there is one. \<open>LexerAtom\<close> embeds the shared nodes.
\<close>

datatype lexer_ctx =
    LexerAltList "lexer_ctx list"
  | LexerAlt lexer_ctx
  | LexerElements "lexer_ctx list"
  | LexerElementLabeled lexer_ctx "string option"
  | LexerElementAtom lexer_ctx "string option"
  | LexerElementBlock lexer_ctx "string option"
  | LexerElementAction
  | LabeledLexerElement lexer_ctx
  | LexerBlock lexer_ctx
  | LexerAtomCharSet string
  | LexerAtomWildcard
  | LexerAtom atom_ctx

text \<open>The body of a parser rule. \<open>Atom\<close> embeds the shared nodes.\<close>

datatype parser_ctx =
    RuleAltList "parser_ctx list"
  | AltList "parser_ctx list"
  | LabeledAlt parser_ctx
  | AlternativeCtx "parser_ctx list"
  | ParserElementLabeled parser_ctx "string option"
  | ParserElementAtom parser_ctx "string option"
  | ParserElementBlock parser_ctx "string option"
  | ParserElementAction
  | LabeledElement parser_ctx
  | Block parser_ctx
  | AtomWildcard
  | Ruleref string
  | Atom atom_ctx

text \<open>
  The tree of a grammar file, as the three loaders walk it:
  \<^item> \<open>OptionCtx n v l\<close>: an option with \<^verbatim>\<open>name.getText()\<close>, \<^verbatim>\<open>value.getText()\<close>
    and \<^verbatim>\<open>start.line\<close>;
  \<^item> \<open>DelegateGrammar v l\<close>: a delegate grammar with \<^verbatim>\<open>value.getText()\<close> and its line;
  \<^item> \<open>TokensSpec defs\<close>: the text and line of each identifier of \<^verbatim>\<open>defs.defs\<close>;
  \<^item> \<open>ParserRuleSpec n docs block l\<close>: \<^verbatim>\<open>name.text\<close>, \<^verbatim>\<open>docs\<close>,
    \<^verbatim>\<open>ruleBlock()\<close> and \<^verbatim>\<open>start.line\<close>;
  \<^item> \<open>LexerRuleSpec n docs frag block l\<close>: likewise, with whether \<^verbatim>\<open>frag\<close> is set
    and \<^verbatim>\<open>lexerRuleBlock()\<close>;
  \<^item> \<open>ModeSpec\<close> and \<open>PrequelConstruct\<close> with their children;
  \<^item> \<open>Node\<close>: every other node, with its children.
\<close>

datatype ctx =
    OptionCtx string string int
  | DelegateGrammar string int
  | TokensSpec "(string \<times> int) list"
  | ParserRuleSpec string "comment_token list" parser_ctx int
  | LexerRuleSpec string "comment_token list" bool lexer_ctx int
  | ModeSpec "ctx list"
  | PrequelConstruct "ctx list"
  | Node "ctx list"

text \<open>
  What the external lexer and parser give for a text: the tree, the calls of the two
  error listeners in their order (line and message), and
  \<^verbatim>\<open>parser.getNumberOfSyntaxErrors()\<close>.
\<close>

record parse_result =
  tree :: ctx
  listener_calls :: "(int \<times> string) list"
  number_of_syntax_errors :: nat

text \<open>
  A path on disk: nothing; something for which \<^verbatim>\<open>open\<close> or \<^verbatim>\<open>read\<close> raises the
  given exception (a directory, bytes that are not UTF-8); or a text.
\<close>

datatype disk_file = Missing | Unreadable error | Content string

text \<open>
  The collaborators outside \<^verbatim>\<open>impl.py\<close>, as parameters: \<^verbatim>\<open>os.path.normpath\<close>,
  \<^verbatim>\<open>abspath\<close>, \<^verbatim>\<open>dirname\<close> and \<^verbatim>\<open>join\<close>, the file system
  (\<^verbatim>\<open>os.path.exists\<close>, \<^verbatim>\<open>open\<close> and \<^verbatim>\<open>read\<close>), the ANTLR lexer and parser
  (\<^verbatim>\<open>parser.grammarSpec()\<close>) and \<^verbatim>\<open>textwrap.dedent\<close>.
\<close>

record env =
  normpath :: "string \<Rightarrow> string"
  abspath :: "string \<Rightarrow> string"
  dirname :: "string \<Rightarrow> string"
  path_join :: "string \<Rightarrow> string \<Rightarrow> string"
  file_at :: "string \<Rightarrow> disk_file"
  grammarSpec :: "string \<Rightarrow> parse_result"
  dedent :: "string \<Rightarrow> string"

section \<open>The documentation extractor of RuleLoader\<close>

text \<open>
  The local variables of \<^verbatim>\<open>load_docs\<close>; the dictionary it returns holds the first
  five and \<open>documentation\<close>, the lines joined.
\<close>

record docs_vars =
  is_doxygen_nodoc :: bool
  is_doxygen_inline :: bool
  css_class :: string
  importance :: int
  name :: "string option"
  documentation_lines :: "string list"

definition initial_docs_vars :: docs_vars where
  "initial_docs_vars =
     \<lparr>is_doxygen_nodoc = False, is_doxygen_inline = False, css_class = [], importance = 1,
      name = None, documentation_lines = []\<rparr>"

definition documentation :: "docs_vars \<Rightarrow> string" where
  "documentation v = str_join [CHR 0x0A] (documentation_lines v)"

text \<open>
  The check after the chain of commands (line 315): a command other than
  \<^verbatim>\<open>name\<close>, \<^verbatim>\<open>class\<close> and \<^verbatim>\<open>importance\<close> with a non-empty \<^verbatim>\<open>ctx\<close>
  is warned about. A \<^verbatim>\<open>continue\<close> of the source skips it.
\<close>

definition argument_check :: "string \<Rightarrow> string \<Rightarrow> diagnostic list \<Rightarrow> diagnostic list" where
  "argument_check cmd ctx_text reported =
     (if cmd \<notin> set [''name'', ''class'', ''importance''] \<and> ctx_text \<noteq> []
      then reported @ [(Warning, ArgumentIgnored cmd)] else reported)"

text \<open>The chain of commands (lines 288 to 316), for a text that matched.\<close>

definition directive ::
  "position \<Rightarrow> string \<Rightarrow> string \<Rightarrow> docs_vars \<times> diagnostic list \<Rightarrow> docs_vars \<times> diagnostic list" where
  "directive pos cmd ctx_text acc =
     (case acc of (v, reported) \<Rightarrow>
        if cmd = ''nodoc'' then
          (v\<lparr>is_doxygen_nodoc := True\<rparr>, argument_check cmd ctx_text reported)
        else if cmd = ''inline'' then
          (v\<lparr>is_doxygen_inline := True\<rparr>, argument_check cmd ctx_text reported)
        else if cmd = ''unimportant'' then
          (v\<lparr>importance := 0\<rparr>, argument_check cmd ctx_text reported)
        else if cmd = ''class'' then
          (v\<lparr>css_class := strip ctx_text\<rparr>, argument_check cmd ctx_text reported)
        else if cmd = ''importance'' then
          (case py_int (strip ctx_text) of
             None \<Rightarrow> (v, reported @ [(Error, ImportanceRequiresInteger pos)])
           | Some val \<Rightarrow>
               (v\<lparr>importance := val\<rparr>,
                argument_check cmd ctx_text
                  (if val < 0 then reported @ [(Error, ImportanceNegative pos)] else reported)))
        else if cmd = ''name'' then
          (if strip ctx_text = [] then
             (v\<lparr>name := Some (strip ctx_text)\<rparr>, reported @ [(Error, NameRequiresArgument pos)])
           else (v\<lparr>name := Some (strip ctx_text)\<rparr>, argument_check cmd ctx_text reported))
        else (v, argument_check cmd ctx_text (reported @ [(Error, UnknownCommand pos cmd)])))"

text \<open>
  The branch of a token that is no directive (lines 318 to 339). Unpacking
  \<^verbatim>\<open>first_line, *lines = lines\<close> raises \<^verbatim>\<open>ValueError\<close> on the empty list.
\<close>

definition documentation_token ::
  "env \<Rightarrow> string \<Rightarrow> docs_vars \<times> diagnostic list \<Rightarrow> error + docs_vars \<times> diagnostic list" where
  "documentation_token e s acc =
     (case acc of (v, reported) \<Rightarrow>
        let lines = map strip (splitlines s) in
        if length lines = 1 then
          Inr (v\<lparr>documentation_lines :=
                   documentation_lines v @
                   [strip (drop 3 (take (length (lines ! 0) - 2) (lines ! 0)))]\<rparr>, reported)
        else
          (case lines of
             [] \<Rightarrow> Inl ValueError
           | first_line # lines \<Rightarrow>
               let first_line = lstrip (drop 3 first_line);
                   doc = documentation_lines v @ (if first_line \<noteq> [] then [first_line] else []);
                   lines = butlast lines @ [rstrip (take (length (last lines) - 2) (last lines))];
                   lines = (if last lines = [] then butlast lines else lines);
                   lines = (if list_all (\<lambda>l. startswith l ''*'') lines
                            then map (drop 1) lines else lines);
                   dedented = dedent e (str_join [CHR 0x0A] lines)
               in Inr (v\<lparr>documentation_lines := doc @ [dedented]\<rparr>, reported)))"

text \<open>The body of the loop over the tokens, and the loop.\<close>

definition load_docs_token ::
  "env \<Rightarrow> string \<Rightarrow> int \<Rightarrow> comment_token \<Rightarrow> docs_vars \<times> diagnostic list
     \<Rightarrow> error + docs_vars \<times> diagnostic list" where
  "load_docs_token e model_path model_offset token acc =
     (let s = token_text token;
          pos = (model_path, token_line token + model_offset)
      in if startswith s ''//@'' then
           (case CMD_RE_match s of
              None \<Rightarrow> Inr (fst acc, snd acc @ [(Error, InvalidCommand pos s)])
            | Some (cmd, ctx_text) \<Rightarrow> Inr (directive pos cmd ctx_text acc))
         else documentation_token e s acc)"

fun load_docs_loop ::
  "env \<Rightarrow> string \<Rightarrow> int \<Rightarrow> comment_token list \<Rightarrow> docs_vars \<times> diagnostic list
     \<Rightarrow> error + docs_vars \<times> diagnostic list" where
  "load_docs_loop e model_path model_offset [] acc = Inr acc"
| "load_docs_loop e model_path model_offset (token # tokens) acc =
     (case load_docs_token e model_path model_offset token acc of
        Inl err \<Rightarrow> Inl err
      | Inr acc' \<Rightarrow> load_docs_loop e model_path model_offset tokens acc')"

text \<open>
  \<^verbatim>\<open>RuleLoader.load_docs(tokens)\<close>, for a loader whose model has the given path and
  offset: the variables at the end of the loop and the diagnostics logged, in order.
\<close>

definition load_docs ::
  "env \<Rightarrow> string \<Rightarrow> int \<Rightarrow> comment_token list \<Rightarrow> error + docs_vars \<times> diagnostic list" where
  "load_docs e model_path model_offset tokens =
     load_docs_loop e model_path model_offset tokens (initial_docs_vars, [])"

section \<open>Rules and models\<close>

text \<open>
  Modelled from the spec: \<^verbatim>\<open>LexerRule\<close> and \<^verbatim>\<open>ParserRule\<close> of
  \<^verbatim>\<open>model.py\<close>. A rule is the record of the keyword arguments the loaders pass to
  the constructor; a keyword that a call leaves out is \<open>None\<close> (its default is
  \<^verbatim>\<open>model.py\<close>'s). \<open>model\<close> is the address of the owning model.
\<close>

record rule_base =
  rule_name :: string
  display_name :: "string option"
  model :: nat
  position :: position
  content_tree :: "rule_content option"
  rule_is_doxygen_nodoc :: bool
  rule_is_doxygen_inline :: bool
  is_doxygen_important :: "bool option"
  rule_importance :: "int option"
  rule_css_class :: "string option"
  rule_documentation :: string

record lexer_rule = rule_base +
  is_fragment :: bool
  is_literal :: bool

type_synonym parser_rule = rule_base

text \<open>A \<^verbatim>\<open>RuleBase\<close> is a lexer rule or a parser rule.\<close>

datatype rule = LexerRule lexer_rule | ParserRule parser_rule

text \<open>\<^verbatim>\<open>ModelImpl\<close>: its fields, and \<^verbatim>\<open>__init__\<close>.\<close>

record model_impl =
  path :: string
  in_memory :: bool
  offset :: int
  lexer_rules :: "string \<rightharpoonup> lexer_rule"
  parser_rules :: "string \<rightharpoonup> parser_rule"
  imports_of :: "nat set"

definition ModelImpl :: "string \<Rightarrow> int \<Rightarrow> bool \<Rightarrow> model_impl" where
  "ModelImpl p off in_mem =
     \<lparr>path = p, in_memory = in_mem, offset = off, lexer_rules = Map.empty,
      parser_rules = Map.empty, imports_of = {}\<rparr>"

text \<open>\<^verbatim>\<open>ModelImpl.lookup_local(name)\<close>.\<close>

definition lookup_local :: "model_impl \<Rightarrow> string \<Rightarrow> rule option" where
  "lookup_local m nm =
     (case lexer_rules m nm of
        Some r \<Rightarrow> Some (LexerRule r)
      | None \<Rightarrow>
          (case parser_rules m nm of
             Some r \<Rightarrow> Some (ParserRule r)
           | None \<Rightarrow> None))"

section \<open>The state of the process\<close>

text \<open>
  Models are objects: the claims speak of their identity and the loaders change them in
  place. \<open>heap\<close> is the store of all \<^verbatim>\<open>ModelImpl\<close> objects made so far, the address of
  an object its index. \<open>loaded\<close> is \<^verbatim>\<open>ModelCacheImpl._loaded\<close>, from paths to
  addresses; \<open>logged\<close> are the diagnostics sent to the logger, in order; \<open>parses\<close>
  counts the runs of the external parser (a ghost counter, for the claims about
  re-parsing).
\<close>

record state =
  loaded :: "string \<rightharpoonup> nat"
  heap :: "model_impl list"
  logged :: "diagnostic list"
  parses :: nat

definition initial_state :: state where
  "initial_state = \<lparr>loaded = Map.empty, heap = [], logged = [], parses = 0\<rparr>"

text \<open>Making a new object, changing the object at an address, logging.\<close>

definition new_model :: "model_impl \<Rightarrow> state \<Rightarrow> nat \<times> state" where
  "new_model m s = (length (heap s), s\<lparr>heap := heap s @ [m]\<rparr>)"

definition update_model :: "nat \<Rightarrow> (model_impl \<Rightarrow> model_impl) \<Rightarrow> state \<Rightarrow> state" where
  "update_model self f s = s\<lparr>heap := (heap s)[self := f (heap s ! self)]\<rparr>"

definition log_all :: "diagnostic list \<Rightarrow> state \<Rightarrow> state" where
  "log_all ds s = s\<lparr>logged := logged s @ ds\<rparr>"

text \<open>
  \<^verbatim>\<open>ModelImpl.set_lexer_rule\<close>, \<^verbatim>\<open>set_parser_rule\<close> and \<^verbatim>\<open>add_import\<close>
  (with its two assertions), on the object at address \<open>self\<close>.
\<close>

definition set_lexer_rule :: "nat \<Rightarrow> string \<Rightarrow> lexer_rule \<Rightarrow> state \<Rightarrow> state" where
  "set_lexer_rule self nm r s =
     update_model self (\<lambda>m. m\<lparr>lexer_rules := (lexer_rules m)(nm \<mapsto> r)\<rparr>) s"

definition set_parser_rule :: "nat \<Rightarrow> string \<Rightarrow> parser_rule \<Rightarrow> state \<Rightarrow> state" where
  "set_parser_rule self nm r s =
     update_model self (\<lambda>m. m\<lparr>parser_rules := (parser_rules m)(nm \<mapsto> r)\<rparr>) s"

definition add_import :: "nat \<Rightarrow> nat \<Rightarrow> state \<Rightarrow> error + state" where
  "add_import self other s =
     (if in_memory (heap s ! self) then Inl AssertionError
      else if in_memory (heap s ! other) then Inl AssertionError
      else Inr (update_model self (\<lambda>m. m\<lparr>imports_of := insert other (imports_of m)\<rparr>) s))"

section \<open>Results of calls that may raise or recurse without end\<close>

text \<open>
  A call into the cache returns \<open>Some (Inr x)\<close> when it returns \<open>x\<close>,
  \<open>Some (Inl e)\<close> when it raises \<open>e\<close>, and \<open>None\<close> when the fuel that bounds the depth
  of nested imports runs out.
\<close>

type_synonym 'a outcome = "(error + 'a) option"

type_synonym cache = "string \<Rightarrow> state \<Rightarrow> (nat \<times> state) outcome"

section \<open>MetaLoader\<close>

text \<open>
  \<^verbatim>\<open>MetaLoader.add_import(name, position)\<close>; the position is not used by the source.
  \<open>from_file\<close> is the \<^verbatim>\<open>from_file\<close> of the loader's cache, called with a string.
  \<^verbatim>\<open>_basedir\<close> is read only for a model that is not in memory.
\<close>

definition MetaLoader_add_import ::
  "env \<Rightarrow> cache \<Rightarrow> nat \<Rightarrow> string \<Rightarrow> state \<Rightarrow> state outcome" where
  "MetaLoader_add_import e from_file self nm s =
     (if in_memory (heap s ! self) then
        Some (Inr (log_all [(Error, ImportsNotAllowed)] s))
      else
        (case from_file (path_join e (dirname e (path (heap s ! self))) (nm @ ''.g4'')) s of
           None \<Rightarrow> None
         | Some (Inl err) \<Rightarrow> Some (Inl err)
         | Some (Inr (m, s')) \<Rightarrow> Some (add_import self m s')))"

text \<open>The rule that \<^verbatim>\<open>visitTokensSpec\<close> makes for one identifier.\<close>

definition token_rule :: "nat \<Rightarrow> model_impl \<Rightarrow> string \<times> int \<Rightarrow> lexer_rule" where
  "token_rule self m tok =
     \<lparr>rule_name = fst tok, display_name = None, model = self,
      position = (path m, snd tok + offset m), content_tree = None,
      rule_is_doxygen_nodoc = True, rule_is_doxygen_inline = True,
      is_doxygen_important = Some True, rule_importance = None, rule_css_class = None,
      rule_documentation = [], is_fragment = False, is_literal = False\<rparr>"

fun visitTokensSpec :: "nat \<Rightarrow> (string \<times> int) list \<Rightarrow> state \<Rightarrow> state" where
  "visitTokensSpec self [] s = s"
| "visitTokensSpec self (tok # toks) s =
     visitTokensSpec self toks
       (set_lexer_rule self (fst tok) (token_rule self (heap s ! self) tok) s)"

text \<open>
  \<^verbatim>\<open>MetaLoader(model, cache).visit(tree)\<close>: rule specs and mode specs are not entered,
  an option named \<^verbatim>\<open>tokenVocab\<close> and a delegate grammar add an import, a tokens block
  declares its tokens; every other node visits its children in order.
\<close>

fun MetaLoader_visit :: "env \<Rightarrow> cache \<Rightarrow> nat \<Rightarrow> ctx \<Rightarrow> state \<Rightarrow> state outcome"
  and MetaLoader_visitChildren :: "env \<Rightarrow> cache \<Rightarrow> nat \<Rightarrow> ctx list \<Rightarrow> state \<Rightarrow> state outcome"
where
  "MetaLoader_visit e c self (ParserRuleSpec nm docs block line) s = Some (Inr s)"
| "MetaLoader_visit e c self (LexerRuleSpec nm docs frag block line) s = Some (Inr s)"
| "MetaLoader_visit e c self (ModeSpec children) s = Some (Inr s)"
| "MetaLoader_visit e c self (OptionCtx nm v line) s =
     (if nm = ''tokenVocab'' then MetaLoader_add_import e c self v s else Some (Inr s))"
| "MetaLoader_visit e c self (DelegateGrammar v line) s = MetaLoader_add_import e c self v s"
| "MetaLoader_visit e c self (TokensSpec defs) s = Some (Inr (visitTokensSpec self defs s))"
| "MetaLoader_visit e c self (PrequelConstruct children) s =
     MetaLoader_visitChildren e c self children s"
| "MetaLoader_visit e c self (Node children) s = MetaLoader_visitChildren e c self children s"
| "MetaLoader_visitChildren e c self [] s = Some (Inr s)"
| "MetaLoader_visitChildren e c self (child # children) s =
     (case MetaLoader_visit e c self child s of
        None \<Rightarrow> None
      | Some (Inl err) \<Rightarrow> Some (Inl err)
      | Some (Inr s') \<Rightarrow> MetaLoader_visitChildren e c self children s')"

section \<open>LexerRuleLoader\<close>

text \<open>An empty string literal, \<^verbatim>\<open>''\<close>: two apostrophes.\<close>

definition empty_literal :: string where
  "empty_literal = [CHR 0x27, CHR 0x27]"

text \<open>The visit methods of \<^verbatim>\<open>LexerRuleLoader\<close> on the shared nodes.\<close>

fun LexerRuleLoader_visit_atom :: "nat \<Rightarrow> atom_ctx \<Rightarrow> rule_content" where
  "LexerRuleLoader_visit_atom self (CharacterRange a b) = Range a b"
| "LexerRuleLoader_visit_atom self (TerminalRef v) = Reference self v"
| "LexerRuleLoader_visit_atom self (TerminalLit v) =
     (if v = empty_literal then Empty else Literal v)"
| "LexerRuleLoader_visit_atom self (NotElement v) = Negation (LexerRuleLoader_visit_atom self v)"
| "LexerRuleLoader_visit_atom self (NotBlock v) = Negation (LexerRuleLoader_visit_atom self v)"
| "LexerRuleLoader_visit_atom self (BlockSet elements) =
     make_alt_rule (map (LexerRuleLoader_visit_atom self) elements)"
| "LexerRuleLoader_visit_atom self (SetElementRef v) = Reference self v"
| "LexerRuleLoader_visit_atom self (SetElementLit v) =
     (if v = empty_literal then Empty else Literal v)"
| "LexerRuleLoader_visit_atom self (SetElementCharSet v) =
     (if v = ''[]'' then Empty else CharSet v)"

text \<open>The visit methods of \<^verbatim>\<open>LexerRuleLoader\<close> on the body of a lexer rule.\<close>

fun LexerRuleLoader_visit_body :: "nat \<Rightarrow> lexer_ctx \<Rightarrow> rule_content" where
  "LexerRuleLoader_visit_body self (LexerAltList alts) =
     make_alt_rule (map (LexerRuleLoader_visit_body self) alts)"
| "LexerRuleLoader_visit_body self (LexerAlt elements) = LexerRuleLoader_visit_body self elements"
| "LexerRuleLoader_visit_body self (LexerElements elements) =
     make_seq_rule (map (LexerRuleLoader_visit_body self) elements)"
| "LexerRuleLoader_visit_body self (LexerElementLabeled v suffix) =
     wrap_suffix (LexerRuleLoader_visit_body self v) suffix"
| "LexerRuleLoader_visit_body self (LexerElementAtom v suffix) =
     wrap_suffix (LexerRuleLoader_visit_body self v) suffix"
| "LexerRuleLoader_visit_body self (LexerElementBlock v suffix) =
     wrap_suffix (LexerRuleLoader_visit_body self v) suffix"
| "LexerRuleLoader_visit_body self LexerElementAction = Empty"
| "LexerRuleLoader_visit_body self (LabeledLexerElement v) = LexerRuleLoader_visit_body self v"
| "LexerRuleLoader_visit_body self (LexerBlock alts) = LexerRuleLoader_visit_body self alts"
| "LexerRuleLoader_visit_body self (LexerAtomCharSet v) =
     (if v = ''[]'' then Empty else CharSet v)"
| "LexerRuleLoader_visit_body self LexerAtomWildcard = Wildcard"
| "LexerRuleLoader_visit_body self (LexerAtom a) = LexerRuleLoader_visit_atom self a"

text \<open>
  \<^verbatim>\<open>doc_info['name'] or None\<close>: an empty name counts as none.
\<close>

definition name_or_None :: "string option \<Rightarrow> string option" where
  "name_or_None n = (case n of None \<Rightarrow> None | Some x \<Rightarrow> if x = [] then None else Some x)"

text \<open>
  The rule that \<^verbatim>\<open>LexerRuleLoader.visitLexerRuleSpec\<close> makes from the content it
  built and the variables of \<^verbatim>\<open>load_docs\<close>.
\<close>

definition make_lexer_rule ::
  "nat \<Rightarrow> model_impl \<Rightarrow> string \<Rightarrow> bool \<Rightarrow> int \<Rightarrow> rule_content \<Rightarrow> docs_vars \<Rightarrow> lexer_rule" where
  "make_lexer_rule self m nm frag line c doc_info =
     \<lparr>rule_name = nm, display_name = name_or_None (name doc_info), model = self,
      position = (path m, line + offset m), content_tree = Some c,
      rule_is_doxygen_nodoc = is_doxygen_nodoc doc_info,
      rule_is_doxygen_inline = is_doxygen_inline doc_info,
      is_doxygen_important = None, rule_importance = Some (importance doc_info),
      rule_css_class = Some (css_class doc_info),
      rule_documentation = documentation doc_info,
      is_fragment = frag, is_literal = isinstance_Literal c\<rparr>"

definition visitLexerRuleSpec ::
  "env \<Rightarrow> nat \<Rightarrow> string \<Rightarrow> comment_token list \<Rightarrow> bool \<Rightarrow> lexer_ctx \<Rightarrow> int \<Rightarrow> state
     \<Rightarrow> error + state" where
  "visitLexerRuleSpec e self nm docs frag block line s =
     (let c = LexerRuleLoader_visit_body self block;
          m = heap s ! self
      in case load_docs e (path m) (offset m) docs of
           Inl err \<Rightarrow> Inl err
         | Inr (doc_info, reported) \<Rightarrow>
             let s = log_all reported s;
                 r = make_lexer_rule self m nm frag line c doc_info;
                 s = set_lexer_rule self (rule_name r) r s
             in (case c of
                   Literal literal \<Rightarrow> Inr (set_lexer_rule self literal r s)
                 | other \<Rightarrow> Inr s))"

text \<open>
  \<^verbatim>\<open>LexerRuleLoader(model).visit(tree)\<close>: parser rule specs and prequel constructs are
  not entered; mode specs are. An option, a delegate grammar and a tokens block hold no
  rule spec.
\<close>

fun LexerRuleLoader_visit :: "env \<Rightarrow> nat \<Rightarrow> ctx \<Rightarrow> state \<Rightarrow> error + state"
  and LexerRuleLoader_visitChildren :: "env \<Rightarrow> nat \<Rightarrow> ctx list \<Rightarrow> state \<Rightarrow> error + state"
where
  "LexerRuleLoader_visit e self (ParserRuleSpec nm docs block line) s = Inr s"
| "LexerRuleLoader_visit e self (PrequelConstruct children) s = Inr s"
| "LexerRuleLoader_visit e self (LexerRuleSpec nm docs frag block line) s =
     visitLexerRuleSpec e self nm docs frag block line s"
| "LexerRuleLoader_visit e self (ModeSpec children) s =
     LexerRuleLoader_visitChildren e self children s"
| "LexerRuleLoader_visit e self (Node children) s =
     LexerRuleLoader_visitChildren e self children s"
| "LexerRuleLoader_visit e self (OptionCtx nm v line) s = Inr s"
| "LexerRuleLoader_visit e self (DelegateGrammar v line) s = Inr s"
| "LexerRuleLoader_visit e self (TokensSpec defs) s = Inr s"
| "LexerRuleLoader_visitChildren e self [] s = Inr s"
| "LexerRuleLoader_visitChildren e self (child # children) s =
     (case LexerRuleLoader_visit e self child s of
        Inl err \<Rightarrow> Inl err
      | Inr s' \<Rightarrow> LexerRuleLoader_visitChildren e self children s')"

section \<open>ParserRuleLoader\<close>

fun ParserRuleLoader_visit_atom :: "nat \<Rightarrow> atom_ctx \<Rightarrow> rule_content" where
  "ParserRuleLoader_visit_atom self (CharacterRange a b) = Empty"
| "ParserRuleLoader_visit_atom self (TerminalRef v) = Reference self v"
| "ParserRuleLoader_visit_atom self (TerminalLit v) = Reference self v"
| "ParserRuleLoader_visit_atom self (NotElement v) = Negation (ParserRuleLoader_visit_atom self v)"
| "ParserRuleLoader_visit_atom self (NotBlock v) = Negation (ParserRuleLoader_visit_atom self v)"
| "ParserRuleLoader_visit_atom self (BlockSet elements) =
     make_alt_rule (map (ParserRuleLoader_visit_atom self) elements)"
| "ParserRuleLoader_visit_atom self (SetElementRef v) = Reference self v"
| "ParserRuleLoader_visit_atom self (SetElementLit v) = Reference self v"
| "ParserRuleLoader_visit_atom self (SetElementCharSet v) = Empty"

fun ParserRuleLoader_visit_body :: "nat \<Rightarrow> parser_ctx \<Rightarrow> rule_content" where
  "ParserRuleLoader_visit_body self (RuleAltList alts) =
     make_alt_rule (map (ParserRuleLoader_visit_body self) alts)"
| "ParserRuleLoader_visit_body self (AltList alts) =
     make_alt_rule (map (ParserRuleLoader_visit_body self) alts)"
| "ParserRuleLoader_visit_body self (LabeledAlt alt) = ParserRuleLoader_visit_body self alt"
| "ParserRuleLoader_visit_body self (AlternativeCtx elements) =
     make_seq_rule (map (ParserRuleLoader_visit_body self) elements)"
| "ParserRuleLoader_visit_body self (ParserElementLabeled v suffix) =
     wrap_suffix (ParserRuleLoader_visit_body self v) suffix"
| "ParserRuleLoader_visit_body self (ParserElementAtom v suffix) =
     wrap_suffix (ParserRuleLoader_visit_body self v) suffix"
| "ParserRuleLoader_visit_body self (ParserElementBlock v suffix) =
     wrap_suffix (ParserRuleLoader_visit_body self v) suffix"
| "ParserRuleLoader_visit_body self ParserElementAction = Empty"
| "ParserRuleLoader_visit_body self (LabeledElement v) = ParserRuleLoader_visit_body self v"
| "ParserRuleLoader_visit_body self (Block alts) = ParserRuleLoader_visit_body self alts"
| "ParserRuleLoader_visit_body self AtomWildcard = Wildcard"
| "ParserRuleLoader_visit_body self (Ruleref v) = Reference self v"
| "ParserRuleLoader_visit_body self (Atom a) = ParserRuleLoader_visit_atom self a"

definition make_parser_rule ::
  "nat \<Rightarrow> model_impl \<Rightarrow> string \<Rightarrow> int \<Rightarrow> rule_content \<Rightarrow> docs_vars \<Rightarrow> parser_rule" where
  "make_parser_rule self m nm line c doc_info =
     \<lparr>rule_name = nm, display_name = name_or_None (name doc_info), model = self,
      position = (path m, line + offset m), content_tree = Some c,
      rule_is_doxygen_nodoc = is_doxygen_nodoc doc_info,
      rule_is_doxygen_inline = is_doxygen_inline doc_info,
      is_doxygen_important = None, rule_importance = Some (importance doc_info),
      rule_css_class = Some (css_class doc_info),
      rule_documentation = documentation doc_info\<rparr>"

definition visitParserRuleSpec ::
  "env \<Rightarrow> nat \<Rightarrow> string \<Rightarrow> comment_token list \<Rightarrow> parser_ctx \<Rightarrow> int \<Rightarrow> state \<Rightarrow> error + state" where
  "visitParserRuleSpec e self nm docs block line s =
     (let c = ParserRuleLoader_visit_body self block;
          m = heap s ! self
      in case load_docs e (path m) (offset m) docs of
           Inl err \<Rightarrow> Inl err
         | Inr (doc_info, reported) \<Rightarrow>
             let s = log_all reported s;
                 r = make_parser_rule self m nm line c doc_info
             in Inr (set_parser_rule self (rule_name r) r s))"

text \<open>
  \<^verbatim>\<open>ParserRuleLoader(model).visit(tree)\<close>: prequel constructs, lexer rule specs and
  mode specs are not entered.
\<close>

fun ParserRuleLoader_visit :: "env \<Rightarrow> nat \<Rightarrow> ctx \<Rightarrow> state \<Rightarrow> error + state"
  and ParserRuleLoader_visitChildren :: "env \<Rightarrow> nat \<Rightarrow> ctx list \<Rightarrow> state \<Rightarrow> error + state"
where
  "ParserRuleLoader_visit e self (ParserRuleSpec nm docs block line) s =
     visitParserRuleSpec e self nm docs block line s"
| "ParserRuleLoader_visit e self (PrequelConstruct children) s = Inr s"
| "ParserRuleLoader_visit e self (LexerRuleSpec nm docs frag block line) s = Inr s"
| "ParserRuleLoader_visit e self (ModeSpec children) s = Inr s"
| "ParserRuleLoader_visit e self (Node children) s =
     ParserRuleLoader_visitChildren e self children s"
| "ParserRuleLoader_visit e self (OptionCtx nm v line) s = Inr s"
| "ParserRuleLoader_visit e self (DelegateGrammar v line) s = Inr s"
| "ParserRuleLoader_visit e self (TokensSpec defs) s = Inr s"
| "ParserRuleLoader_visitChildren e self [] s = Inr s"
| "ParserRuleLoader_visitChildren e self (child # children) s =
     (case ParserRuleLoader_visit e self child s of
        Inl err \<Rightarrow> Inl err
      | Inr s' \<Rightarrow> ParserRuleLoader_visitChildren e self children s')"

section \<open>ModelCacheImpl\<close>

text \<open>
  \<^verbatim>\<open>LoggingErrorListener(path, offset).syntaxError\<close>, for one call of a listener.
\<close>

definition syntaxError :: "string \<Rightarrow> int \<Rightarrow> int \<times> string \<Rightarrow> diagnostic" where
  "syntaxError p off call = (Error, SyntaxErrorMessage p (fst call + off) (snd call))"

text \<open>
  \<^verbatim>\<open>ModelCacheImpl._do_load(text, path, offset, in_memory)\<close>. The external parser
  runs first and its listeners log; then the model is made; with a syntax error it is
  returned as it is, otherwise the three loaders walk the tree.
\<close>

definition do_load ::
  "env \<Rightarrow> cache \<Rightarrow> string \<Rightarrow> string \<Rightarrow> int \<Rightarrow> bool \<Rightarrow> state \<Rightarrow> (nat \<times> state) outcome" where
  "do_load e c txt p off in_mem s =
     (let parsed = grammarSpec e txt;
          s = log_all (map (syntaxError p off) (listener_calls parsed)) s;
          s = s\<lparr>parses := Suc (parses s)\<rparr>;
          (m, s) = new_model (ModelImpl p off in_mem) s
      in if number_of_syntax_errors parsed \<noteq> 0 then Some (Inr (m, s))
         else
           (case MetaLoader_visit e c m (tree parsed) s of
              None \<Rightarrow> None
            | Some (Inl err) \<Rightarrow> Some (Inl err)
            | Some (Inr s) \<Rightarrow>
                (case LexerRuleLoader_visit e m (tree parsed) s of
                   Inl err \<Rightarrow> Some (Inl err)
                 | Inr s \<Rightarrow>
                     (case ParserRuleLoader_visit e m (tree parsed) s of
                        Inl err \<Rightarrow> Some (Inl err)
                      | Inr s \<Rightarrow> Some (Inr (m, s))))))"

text \<open>
  The argument of \<^verbatim>\<open>from_file\<close> and \<^verbatim>\<open>from_text\<close>: a path, or a path with an
  offset.
\<close>

datatype path_arg = Path string | PathOffset string int

definition path_and_offset :: "path_arg \<Rightarrow> string \<times> int" where
  "path_and_offset a = (case a of Path p \<Rightarrow> (p, 0) | PathOffset p off \<Rightarrow> (p, off))"

text \<open>
  \<^verbatim>\<open>ModelCacheImpl.from_file(path)\<close>. The file of an import is loaded by a nested
  call, from \<open>MetaLoader_add_import\<close>; the first argument bounds the depth of the nesting,
  and \<open>None\<close> says that the bound did not suffice.
\<close>

fun from_file :: "nat \<Rightarrow> env \<Rightarrow> path_arg \<Rightarrow> state \<Rightarrow> (nat \<times> state) outcome" where
  "from_file 0 e a s = None"
| "from_file (Suc fuel) e a s =
     (let (p, off) = path_and_offset a;
          p = abspath e (normpath e p)
      in case loaded s p of
           Some m \<Rightarrow> Some (Inr (m, s))
         | None \<Rightarrow>
             (case file_at e p of
                Missing \<Rightarrow>
                  (let s = log_all [(Error, FileNotFound p)] s;
                       (m, s) = new_model (ModelImpl p off False) s
                   in Some (Inr (m, s\<lparr>loaded := (loaded s)(p \<mapsto> m)\<rparr>)))
              | Unreadable err \<Rightarrow> Some (Inl err)
              | Content txt \<Rightarrow>
                  (case do_load e (\<lambda>q. from_file fuel e (Path q)) txt p off False s of
                     None \<Rightarrow> None
                   | Some (Inl err) \<Rightarrow> Some (Inl err)
                   | Some (Inr (m, s)) \<Rightarrow> Some (Inr (m, s\<lparr>loaded := (loaded s)(p \<mapsto> m)\<rparr>)))))"

text \<open>
  \<^verbatim>\<open>ModelCacheImpl.from_text(text, path)\<close>; the default of \<^verbatim>\<open>path\<close> is
  \<open>in_memory_path\<close>.
\<close>

definition in_memory_path :: path_arg where
  "in_memory_path = Path ''<in-memory>''"

definition from_text :: "nat \<Rightarrow> env \<Rightarrow> string \<Rightarrow> path_arg \<Rightarrow> state \<Rightarrow> (nat \<times> state) outcome" where
  "from_text fuel e txt a s =
     (let (p, off) = path_and_offset a
      in do_load e (\<lambda>q. from_file fuel e (Path q)) txt p off True s)"

section \<open>An environment for the examples\<close>

text \<open>
  The path functions of POSIX, after \<^verbatim>\<open>posixpath.py\<close> of the standard library:
  \<^verbatim>\<open>normpath\<close> drops empty and \<^verbatim>\<open>.\<close> components and resolves \<^verbatim>\<open>..\<close>,
  \<^verbatim>\<open>abspath\<close> joins a relative path to the working directory first.
\<close>

fun split_slash :: "string \<Rightarrow> string \<Rightarrow> string list" where
  "split_slash cur [] = [cur]"
| "split_slash cur (c # cs) =
     (if c = CHR ''/'' then cur # split_slash [] cs else split_slash (cur @ [c]) cs)"

fun normpath_comps :: "nat \<Rightarrow> string list \<Rightarrow> string list \<Rightarrow> string list" where
  "normpath_comps initial_slashes [] new_comps = new_comps"
| "normpath_comps initial_slashes (part # comps) new_comps =
     (if part = [] \<or> part = ''.'' then normpath_comps initial_slashes comps new_comps
      else if part \<noteq> ''..'' \<or> (initial_slashes = 0 \<and> new_comps = [])
              \<or> (new_comps \<noteq> [] \<and> last new_comps = ''..'')
        then normpath_comps initial_slashes comps (new_comps @ [part])
      else if new_comps \<noteq> [] then normpath_comps initial_slashes comps (butlast new_comps)
      else normpath_comps initial_slashes comps new_comps)"

definition posix_normpath :: "string \<Rightarrow> string" where
  "posix_normpath p =
     (if p = [] then ''.''
      else let initial_slashes =
                 (if startswith p ''/'' then
                    (if startswith p ''//'' \<and> \<not> startswith p ''///'' then 2 else 1)
                  else 0);
               comps = normpath_comps initial_slashes (split_slash [] p) [];
               q = replicate initial_slashes (CHR ''/'') @ str_join ''/'' comps
           in if q = [] then ''.'' else q)"

definition posix_join :: "string \<Rightarrow> string \<Rightarrow> string" where
  "posix_join a b =
     (if startswith b ''/'' then b
      else if a = [] \<or> last a = CHR ''/'' then a @ b
      else a @ ''/'' @ b)"

definition posix_abspath :: "string \<Rightarrow> string \<Rightarrow> string" where
  "posix_abspath cwd p =
     posix_normpath (if startswith p ''/'' then p else posix_join cwd p)"

definition posix_dirname :: "string \<Rightarrow> string" where
  "posix_dirname p =
     (let head = rev (dropWhile (\<lambda>c. c \<noteq> CHR ''/'') (rev p))
      in if head \<noteq> [] \<and> head \<noteq> replicate (length head) (CHR ''/'')
         then rev (dropWhile (\<lambda>c. c = CHR ''/'') (rev head)) else head)"

text \<open>
  Three grammar files in the directory \<^verbatim>\<open>/g\<close>, which is also the working directory,
  and the trees the external parser gives for their texts:
  \<^item> \<^verbatim>\<open>Lex.g4\<close>, a lexer grammar with the rules \<^verbatim>\<open>FOO: 'foo';\<close> and
    \<^verbatim>\<open>NONE: '';\<close>;
  \<^item> \<^verbatim>\<open>Main.g4\<close>, a parser grammar with the option \<^verbatim>\<open>tokenVocab = Lex\<close> and the
    rule \<^verbatim>\<open>start: FOO;\<close>;
  \<^item> \<^verbatim>\<open>Broken.g4\<close>, for whose text the parser reports a syntax error.
\<close>

definition apostrophe :: char where
  "apostrophe = CHR 0x27"

definition lex_text :: string where
  "lex_text = ''lexer grammar Lex; FOO: '' @ [apostrophe] @ ''foo'' @ [apostrophe] @ ''; NONE: ''
               @ [apostrophe, apostrophe] @ '';''"

definition foo_literal :: string where
  "foo_literal = [apostrophe] @ ''foo'' @ [apostrophe]"

definition lex_tree :: ctx where
  "lex_tree =
     Node [Node [
       Node [LexerRuleSpec ''FOO'' [] False
         (LexerAltList [LexerAlt (LexerElements
            [LexerElementAtom (LexerAtom (TerminalLit foo_literal)) None])]) 1],
       Node [LexerRuleSpec ''NONE'' [] False
         (LexerAltList [LexerAlt (LexerElements
            [LexerElementAtom (LexerAtom (TerminalLit empty_literal)) None])]) 1]]]"

definition main_text :: string where
  "main_text = ''parser grammar Main; options { tokenVocab = Lex; } start: FOO;''"

definition main_tree :: ctx where
  "main_tree =
     Node [PrequelConstruct [Node [OptionCtx ''tokenVocab'' ''Lex'' 1]],
       Node [Node [ParserRuleSpec ''start'' []
         (RuleAltList [LabeledAlt (AlternativeCtx
            [ParserElementAtom (Atom (TerminalRef ''FOO'')) None])]) 1]]]"

definition broken_text :: string where
  "broken_text = ''grammar Broken; A: ;;''"

text \<open>
  The tree of a lexer grammar in which two rules have the same literal, the second one in
  a mode: \<^verbatim>\<open>A: 'x'; mode M; B: 'x';\<close>.
\<close>

definition x_literal :: string where
  "x_literal = [apostrophe] @ ''x'' @ [apostrophe]"

definition shared_literal_tree :: ctx where
  "shared_literal_tree =
     Node [Node [
       Node [LexerRuleSpec ''A'' [] False
         (LexerAltList [LexerAlt (LexerElements
            [LexerElementAtom (LexerAtom (TerminalLit x_literal)) None])]) 1],
       ModeSpec [LexerRuleSpec ''B'' [] False
         (LexerAltList [LexerAlt (LexerElements
            [LexerElementAtom (LexerAtom (TerminalLit x_literal)) None])]) 2]]]"

definition example_grammarSpec :: "string \<Rightarrow> parse_result" where
  "example_grammarSpec txt =
     (if txt = lex_text then
        \<lparr>tree = lex_tree, listener_calls = [], number_of_syntax_errors = 0\<rparr>
      else if txt = main_text then
        \<lparr>tree = main_tree, listener_calls = [], number_of_syntax_errors = 0\<rparr>
      else
        \<lparr>tree = Node [Node [Node [LexerRuleSpec ''A'' [] False (LexerAltList []) 1]]],
         listener_calls = [(1, ''extraneous input'')], number_of_syntax_errors = 1\<rparr>)"

definition example_file_at :: "string \<Rightarrow> disk_file" where
  "example_file_at p =
     (if p = ''/g/Lex.g4'' then Content lex_text
      else if p = ''/g/Main.g4'' then Content main_text
      else if p = ''/g/Broken.g4'' then Content broken_text
      else Missing)"

definition example_env :: env where
  "example_env =
     \<lparr>normpath = posix_normpath, abspath = posix_abspath ''/g'', dirname = posix_dirname,
      path_join = posix_join, file_at = example_file_at, grammarSpec = example_grammarSpec,
      dedent = (\<lambda>s. s)\<rparr>"

section \<open>The spec's words for models and for the cache\<close>

text \<open>A model with zero rules and zero imports.\<close>

definition empty_model :: "model_impl \<Rightarrow> bool" where
  "empty_model m =
     (lexer_rules m = Map.empty \<and> parser_rules m = Map.empty \<and> imports_of m = {})"

text \<open>The normalized absolute path of an argument of \<^verbatim>\<open>from_file\<close>.\<close>

definition normalized :: "env \<Rightarrow> path_arg \<Rightarrow> string" where
  "normalized e a = abspath e (normpath e (fst (path_and_offset a)))"

section \<open>Invariants of the store\<close>

text \<open>
  A state is well formed when every memoized address is an object of the store that is
  not in memory.
\<close>

definition wf_state :: "state \<Rightarrow> bool" where
  "wf_state s =
     (\<forall>p m. loaded s p = Some m \<longrightarrow> m < length (heap s) \<and> \<not> in_memory (heap s ! m))"

text \<open>
  \<open>frame_except A s s'\<close>: from \<open>s\<close> to \<open>s'\<close> objects are only added, the objects of
  \<open>s\<close> outside \<open>A\<close> are unchanged, no object changes its \<^verbatim>\<open>in_memory\<close> flag, and
  every memoized path stays memoized with the same address.
\<close>

definition frame_except :: "nat set \<Rightarrow> state \<Rightarrow> state \<Rightarrow> bool" where
  "frame_except A s s' =
     (length (heap s) \<le> length (heap s') \<and>
      (\<forall>i<length (heap s). i \<notin> A \<longrightarrow> heap s' ! i = heap s ! i) \<and>
      (\<forall>i<length (heap s). in_memory (heap s' ! i) = in_memory (heap s ! i)) \<and>
      (\<forall>p m. loaded s p = Some m \<longrightarrow> loaded s' p = Some m))"

text \<open>
  What the loaders need of the cache they call: a call that returns only adds to the
  state, and in a well-formed state it returns a stored model that is not in memory and
  leaves the state well formed.
\<close>

definition good_cache :: "cache \<Rightarrow> bool" where
  "good_cache c =
     (\<forall>q s m s'. c q s = Some (Inr (m, s')) \<longrightarrow>
        frame_except {} s s' \<and>
        (wf_state s \<longrightarrow> wf_state s' \<and> m < length (heap s') \<and> \<not> in_memory (heap s' ! m)))"

text \<open>
  \<open>later s s'\<close>: the state \<open>s'\<close> is reached from \<open>s\<close> by calls of \<^verbatim>\<open>from_file\<close> and
  \<^verbatim>\<open>from_text\<close> that return, each in the environment of its time.
\<close>

inductive later :: "state \<Rightarrow> state \<Rightarrow> bool" where
  now: "later s s"
| after_from_file:
    "later s s' \<Longrightarrow> from_file fuel e a s' = Some (Inr (m, s'')) \<Longrightarrow> later s s''"
| after_from_text:
    "later s s' \<Longrightarrow> from_text fuel e txt a s' = Some (Inr (m, s'')) \<Longrightarrow> later s s''"

text \<open>
  \<open>keeps_imports self s s'\<close>: no object is added, and the object at \<open>self\<close> keeps its
  imports and its \<^verbatim>\<open>in_memory\<close> flag; nothing is memoized.
\<close>

definition keeps_imports :: "nat \<Rightarrow> state \<Rightarrow> state \<Rightarrow> bool" where
  "keeps_imports self s s' =
     (length (heap s') = length (heap s) \<and>
      imports_of (heap s' ! self) = imports_of (heap s ! self) \<and>
      in_memory (heap s' ! self) = in_memory (heap s ! self) \<and>
      loaded s' = loaded s)"

text \<open>
  The import declarations of a tree, in the words of the spec: the values of the options
  named \<^verbatim>\<open>tokenVocab\<close> and of the delegate grammars, in document order, outside rule
  specs and mode specs.
\<close>

fun import_declarations :: "ctx \<Rightarrow> string list"
  and import_declarations_of :: "ctx list \<Rightarrow> string list"
where
  "import_declarations (OptionCtx nm v line) = (if nm = ''tokenVocab'' then [v] else [])"
| "import_declarations (DelegateGrammar v line) = [v]"
| "import_declarations (TokensSpec defs) = []"
| "import_declarations (ParserRuleSpec nm docs block line) = []"
| "import_declarations (LexerRuleSpec nm docs frag block line) = []"
| "import_declarations (ModeSpec children) = []"
| "import_declarations (PrequelConstruct children) = import_declarations_of children"
| "import_declarations (Node children) = import_declarations_of children"
| "import_declarations_of [] = []"
| "import_declarations_of (child # children) =
     import_declarations child @ import_declarations_of children"

text \<open>
  The keys under which \<^verbatim>\<open>LexerRuleLoader\<close> registers the lexer rules of a tree: the
  name of every lexer rule spec it enters (also inside a mode spec), and the text of its
  literal when its content builds to a \<open>Literal\<close>.
\<close>

fun lexer_rule_keys :: "nat \<Rightarrow> ctx \<Rightarrow> string set"
  and lexer_rule_keys_of :: "nat \<Rightarrow> ctx list \<Rightarrow> string set"
where
  "lexer_rule_keys self (LexerRuleSpec nm docs frag block line) =
     insert nm (case LexerRuleLoader_visit_body self block of
                  Literal literal \<Rightarrow> {literal}
                | other \<Rightarrow> {})"
| "lexer_rule_keys self (ModeSpec children) = lexer_rule_keys_of self children"
| "lexer_rule_keys self (Node children) = lexer_rule_keys_of self children"
| "lexer_rule_keys self (ParserRuleSpec nm docs block line) = {}"
| "lexer_rule_keys self (PrequelConstruct children) = {}"
| "lexer_rule_keys self (OptionCtx nm v line) = {}"
| "lexer_rule_keys self (DelegateGrammar v line) = {}"
| "lexer_rule_keys self (TokensSpec defs) = {}"
| "lexer_rule_keys_of self [] = {}"
| "lexer_rule_keys_of self (child # children) =
     lexer_rule_keys self child \<union> lexer_rule_keys_of self children"

section \<open>The calls of a run of the cache\<close>

text \<open>
  An event of a run: a call of \<^verbatim>\<open>from_file\<close> is entered, with the normalized
  absolute path of its argument and the state at that moment; or such a call returns, with
  the model and the state it returns.
\<close>

datatype event = Enter string state | Exit string nat state

fun event_state :: "event \<Rightarrow> state" where
  "event_state (Enter n s) = s"
| "event_state (Exit n m s) = s"

text \<open>
  The state in which \<^verbatim>\<open>_do_load\<close> starts its loaders: the listeners have logged,
  the parse is counted and the model is made.
\<close>

definition do_load_start :: "env \<Rightarrow> string \<Rightarrow> string \<Rightarrow> int \<Rightarrow> bool \<Rightarrow> state \<Rightarrow> state" where
  "do_load_start e txt p off in_mem s =
     (let parsed = grammarSpec e txt;
          s = log_all (map (syntaxError p off) (listener_calls parsed)) s;
          s = s\<lparr>parses := Suc (parses s)\<rparr>
      in snd (new_model (ModelImpl p off in_mem) s))"

text \<open>
  The events of the calls that \<^verbatim>\<open>MetaLoader\<close> makes while it walks a tree, in the
  order of the walk: \<open>MetaLoader_add_import\<close> of a model that is not in memory calls the
  cache, whose events \<open>tr\<close> gives; the walk goes on to the next child when the visit of a
  child returns, and stops where a call raises or does not come back.
\<close>

definition MetaLoader_add_import_trace ::
  "env \<Rightarrow> (string \<Rightarrow> state \<Rightarrow> event list) \<Rightarrow> nat \<Rightarrow> string \<Rightarrow> state \<Rightarrow> event list" where
  "MetaLoader_add_import_trace e tr self nm s =
     (if in_memory (heap s ! self) then []
      else tr (path_join e (dirname e (path (heap s ! self))) (nm @ ''.g4'')) s)"

fun MetaLoader_trace ::
    "env \<Rightarrow> cache \<Rightarrow> (string \<Rightarrow> state \<Rightarrow> event list) \<Rightarrow> nat \<Rightarrow> ctx \<Rightarrow> state \<Rightarrow> event list"
  and MetaLoader_traceChildren ::
    "env \<Rightarrow> cache \<Rightarrow> (string \<Rightarrow> state \<Rightarrow> event list) \<Rightarrow> nat \<Rightarrow> ctx list \<Rightarrow> state \<Rightarrow> event list"
where
  "MetaLoader_trace e c tr self (ParserRuleSpec nm docs block line) s = []"
| "MetaLoader_trace e c tr self (LexerRuleSpec nm docs frag block line) s = []"
| "MetaLoader_trace e c tr self (ModeSpec children) s = []"
| "MetaLoader_trace e c tr self (OptionCtx nm v line) s =
     (if nm = ''tokenVocab'' then MetaLoader_add_import_trace e tr self v s else [])"
| "MetaLoader_trace e c tr self (DelegateGrammar v line) s =
     MetaLoader_add_import_trace e tr self v s"
| "MetaLoader_trace e c tr self (TokensSpec defs) s = []"
| "MetaLoader_trace e c tr self (PrequelConstruct children) s =
     MetaLoader_traceChildren e c tr self children s"
| "MetaLoader_trace e c tr self (Node children) s =
     MetaLoader_traceChildren e c tr self children s"
| "MetaLoader_traceChildren e c tr self [] s = []"
| "MetaLoader_traceChildren e c tr self (child # children) s =
     MetaLoader_trace e c tr self child s @
     (case MetaLoader_visit e c self child s of
        Some (Inr s') \<Rightarrow> MetaLoader_traceChildren e c tr self children s'
      | other \<Rightarrow> [])"

text \<open>
  The events of \<^verbatim>\<open>_do_load\<close>, which are those of its Meta Pass, and of
  \<^verbatim>\<open>from_file\<close>: the call is entered; when the path is not memoized and the file is
  there, the events of the nested calls follow; when the call returns, its return comes
  last. A call that finds no fuel is entered and does not return.
\<close>

definition do_load_trace ::
  "env \<Rightarrow> cache \<Rightarrow> (string \<Rightarrow> state \<Rightarrow> event list) \<Rightarrow> string \<Rightarrow> string \<Rightarrow> int \<Rightarrow> bool \<Rightarrow> state
     \<Rightarrow> event list" where
  "do_load_trace e c tr txt p off in_mem s =
     (let parsed = grammarSpec e txt
      in if number_of_syntax_errors parsed \<noteq> 0 then []
         else MetaLoader_trace e c tr (length (heap s)) (tree parsed)
                (do_load_start e txt p off in_mem s))"

fun from_file_trace :: "nat \<Rightarrow> env \<Rightarrow> path_arg \<Rightarrow> state \<Rightarrow> event list" where
  "from_file_trace 0 e a s = [Enter (normalized e a) s]"
| "from_file_trace (Suc fuel) e a s =
     (let p = normalized e a;
          off = snd (path_and_offset a)
      in Enter p s #
         (case loaded s p of
            Some m \<Rightarrow> []
          | None \<Rightarrow>
              (case file_at e p of
                 Content txt \<Rightarrow>
                   do_load_trace e (\<lambda>q. from_file fuel e (Path q))
                     (\<lambda>q. from_file_trace fuel e (Path q)) txt p off False s
               | other \<Rightarrow> [])) @
         (case from_file (Suc fuel) e a s of
            Some (Inr (m, s')) \<Rightarrow> [Exit p m s']
          | other \<Rightarrow> []))"

definition from_text_trace :: "nat \<Rightarrow> env \<Rightarrow> string \<Rightarrow> path_arg \<Rightarrow> state \<Rightarrow> event list" where
  "from_text_trace fuel e txt a s =
     (let (p, off) = path_and_offset a
      in do_load_trace e (\<lambda>q. from_file fuel e (Path q))
           (\<lambda>q. from_file_trace fuel e (Path q)) txt p off True s)"

text \<open>
  A run of the cache: top-level calls of \<^verbatim>\<open>from_file\<close> and \<^verbatim>\<open>from_text\<close>, one
  after the other, each in the environment of its time. \<open>run s0 evs s\<close> says that a run
  that starts in \<open>s0\<close> can be in \<open>s\<close> after the events \<open>evs\<close>, of the top-level calls
  and of the calls nested in them. A call that returns leaves the state it returns. A call
  that raises, or whose nesting finds no fuel (where Python raises
  \<^verbatim>\<open>RecursionError\<close>), returns no state: the only assignments to \<^verbatim>\<open>_loaded\<close>
  are those right before a \<^verbatim>\<open>return\<close> of \<^verbatim>\<open>from_file\<close>, so the memo it leaves
  is the memo of its last event, and the run goes on from any state with that memo.
\<close>

definition returns :: "'a outcome \<Rightarrow> bool" where
  "returns r = (case r of Some (Inr x) \<Rightarrow> True | other \<Rightarrow> False)"

definition memo_after :: "state \<Rightarrow> event list \<Rightarrow> string \<rightharpoonup> nat" where
  "memo_after s evs = (if evs = [] then loaded s else loaded (event_state (last evs)))"

inductive run :: "state \<Rightarrow> event list \<Rightarrow> state \<Rightarrow> bool" where
  start: "run s [] s"
| from_file_returns:
    "run s0 evs s \<Longrightarrow> from_file fuel e a s = Some (Inr (m, s')) \<Longrightarrow>
     run s0 (evs @ from_file_trace fuel e a s) s'"
| from_file_fails:
    "run s0 evs s \<Longrightarrow> \<not> returns (from_file fuel e a s) \<Longrightarrow>
     loaded s' = memo_after s (from_file_trace fuel e a s) \<Longrightarrow>
     run s0 (evs @ from_file_trace fuel e a s) s'"
| from_text_returns:
    "run s0 evs s \<Longrightarrow> from_text fuel e txt a s = Some (Inr (m, s')) \<Longrightarrow>
     run s0 (evs @ from_text_trace fuel e txt a s) s'"
| from_text_fails:
    "run s0 evs s \<Longrightarrow> \<not> returns (from_text fuel e txt a s) \<Longrightarrow>
     loaded s' = memo_after s (from_text_trace fuel e txt a s) \<Longrightarrow>
     run s0 (evs @ from_text_trace fuel e txt a s) s'"

text \<open>
  The paths that the file at \<open>p\<close> imports: the normalized paths that the Meta Pass of
  its tree asks the cache for. \<open>import_edge e D\<close> is the import relation between paths
  outside \<open>D\<close>, and a set of paths is trapped when each of its paths imports one of them.
\<close>

definition import_targets :: "env \<Rightarrow> string \<Rightarrow> string set" where
  "import_targets e p =
     (case file_at e p of
        Content txt \<Rightarrow>
          (let parsed = grammarSpec e txt
           in if number_of_syntax_errors parsed \<noteq> 0 then {}
              else (\<lambda>v. normalized e (Path (path_join e (dirname e p) (v @ ''.g4''))))
                     ` set (import_declarations (tree parsed)))
      | other \<Rightarrow> {})"

definition import_edge :: "env \<Rightarrow> string set \<Rightarrow> (string \<times> string) set" where
  "import_edge e D = {(p, q). q \<in> import_targets e p \<and> p \<notin> D \<and> q \<notin> D}"

definition trapped :: "env \<Rightarrow> string set \<Rightarrow> bool" where
  "trapped e B = (\<forall>b\<in>B. import_targets e b \<inter> B \<noteq> {})"

text \<open>The object at \<open>self\<close> is a model of the file \<open>n\<close>.\<close>

definition file_model :: "nat \<Rightarrow> string \<Rightarrow> state \<Rightarrow> bool" where
  "file_model self n s =
     (self < length (heap s) \<and> \<not> in_memory (heap s ! self) \<and> path (heap s ! self) = n)"

text \<open>
  \<open>ext s s'\<close>: every path memoized in \<open>s\<close> is memoized in \<open>s'\<close> with the same
  address. \<open>trace_ok s evs res\<close>: along the events \<open>evs\<close> of a call made in \<open>s\<close> the
  memo only grows, from \<open>s\<close> on and up to the state \<open>res\<close> that the call returns, if
  it returns; and the model of every return is memoized under its path in the state of the
  return.
\<close>

definition ext :: "state \<Rightarrow> state \<Rightarrow> bool" where
  "ext s s' = (\<forall>p m. loaded s p = Some m \<longrightarrow> loaded s' p = Some m)"

definition trace_ok :: "state \<Rightarrow> event list \<Rightarrow> state option \<Rightarrow> bool" where
  "trace_ok s evs res =
     (sorted_wrt (\<lambda>x y. ext (event_state x) (event_state y)) evs \<and>
      (\<forall>ev\<in>set evs. ext s (event_state ev)) \<and>
      (\<forall>n m t. Exit n m t \<in> set evs \<longrightarrow> loaded t n = Some m) \<and>
      (case res of
         None \<Rightarrow> True
       | Some s' \<Rightarrow> ext s s' \<and> (\<forall>ev\<in>set evs. ext (event_state ev) s')))"

definition returned :: "state outcome \<Rightarrow> state option" where
  "returned r = (case r of Some (Inr s') \<Rightarrow> Some s' | other \<Rightarrow> None)"

definition final_state :: "(nat \<times> state) outcome \<Rightarrow> state option" where
  "final_state r = (case r of Some (Inr (m, s')) \<Rightarrow> Some s' | other \<Rightarrow> None)"

text \<open>
  The events of the example. \<^verbatim>\<open>Main.g4\<close>, which imports \<^verbatim>\<open>Lex.g4\<close>, is loaded
  with a nesting depth that does not suffice for its import: the call does not return, and
  is abandoned in the state of its last event. Then \<^verbatim>\<open>Main.g4\<close> is loaded again,
  with enough depth, and then \<^verbatim>\<open>Lex.g4\<close>, in the state \<open>s\<close>.
\<close>

definition example_abandoned :: state where
  "example_abandoned =
     event_state (last (from_file_trace 1 example_env (Path ''Main.g4'') initial_state))"

definition example_events :: "state \<Rightarrow> event list" where
  "example_events s =
     from_file_trace 1 example_env (Path ''Main.g4'') initial_state @
     from_file_trace 2 example_env (Path ''Main.g4'') example_abandoned @
     from_file_trace 1 example_env (Path ''Lex.g4'') s"

section \<open>Properties of the combinators\<close>

subsection \<open>The loops, without their accumulators\<close>

lemma alt_loop_spec:
  "alt_loop content (e, alts) =
     (e \<or> empty_alt_recorded content, alts @ remaining_children content)"
proof (induction content arbitrary: e alts)
  case Nil
  then show ?case by (simp add: empty_alt_recorded_def remaining_children_def)
next
  case (Cons x xs)
  show ?case
    by (cases x)
      (auto simp: Cons.IH empty_alt_recorded_def remaining_children_def alt_items_def
        unwrap_Maybe_def split: rule_content.splits)
qed

lemma make_alt_rule_general:
  "make_alt_rule content =
     (let children = remaining_children content; recorded = empty_alt_recorded content
      in if children = [] then Empty
         else if length children = 1 then (if recorded then Maybe (hd children) else hd children)
         else if recorded then Maybe (Alternative children) else Alternative children)"
  by (cases "remaining_children content") (auto simp: make_alt_rule_def alt_loop_spec Let_def)

lemma seq_loop_concat: "seq_loop content acc = acc @ concat (map seq_items content)"
  by (induction content arbitrary: acc) (auto simp: seq_items_def split: rule_content.splits)

lemma remaining_children_Cons:
  "remaining_children (x # xs) = alt_items x @ remaining_children xs"
  by (simp add: remaining_children_def)

lemma alt_items_kept: "kept_child x \<Longrightarrow> alt_items x = [x]"
  by (cases x) (auto simp: alt_items_def unwrap_Maybe_def kept_child_def)

lemma alt_items_Maybe_kept:
  "b \<noteq> Empty \<Longrightarrow> \<not> isinstance_Alternative b \<Longrightarrow> alt_items (Maybe b) = [b]"
  by (cases b) (auto simp: alt_items_def unwrap_Maybe_def)

subsection \<open>Suffix application\<close>

text \<open>
  C8. For an element \<open>e\<close> other than \<open>Empty\<close>: a suffix whose text starts with
  \<open>?\<close> gives \<open>Maybe e\<close>, unless \<open>e\<close> is a \<open>Maybe\<close> already and is then returned as it
  is; one that starts with \<open>+\<close> gives \<open>OnePlus e\<close>; one that starts with \<open>*\<close> gives
  \<open>ZeroPlus e\<close>. Without a suffix every element is returned as it is, and \<open>Empty\<close> is
  returned as it is whatever the suffix.
\<close>

theorem wrap_suffix_cases:
  "(e \<noteq> Empty \<longrightarrow>
      (startswith s ''?'' \<longrightarrow>
         wrap_suffix e (Some s) = (if isinstance_Maybe e then e else Maybe e)) \<and>
      (startswith s ''+'' \<longrightarrow> wrap_suffix e (Some s) = OnePlus e) \<and>
      (startswith s ''*'' \<longrightarrow> wrap_suffix e (Some s) = ZeroPlus e)) \<and>
   wrap_suffix e None = e \<and>
   wrap_suffix Empty suffix = Empty"
  by (cases s) (auto simp: wrap_suffix_def startswith_def)

theorem wrap_suffix_cases_witness:
  "wrap_suffix (Literal ''x'') (Some ''?'') = Maybe (Literal ''x'') \<and>
   wrap_suffix (Maybe (Literal ''x'')) (Some ''??'') = Maybe (Literal ''x'') \<and>
   wrap_suffix (Reference 0 ''r'') (Some ''+'') = OnePlus (Reference 0 ''r'') \<and>
   wrap_suffix Wildcard (Some ''*?'') = ZeroPlus Wildcard \<and>
   wrap_suffix (CharSet ''[a-z]'') None = CharSet ''[a-z]'' \<and>
   wrap_suffix Empty (Some ''+'') = Empty"
  using wrap_suffix_cases [of "Literal ''x''" "''?''"]
    wrap_suffix_cases [of "Maybe (Literal ''x'')" "''??''"]
    wrap_suffix_cases [of "Reference 0 ''r''" "''+''"]
    wrap_suffix_cases [of Wildcard "''*?''"]
    wrap_suffix_cases [of "CharSet ''[a-z]''" "[]" "Some ''+''"]
  by (simp add: startswith_def)

subsection \<open>The Alternative combinator\<close>

text \<open>
  C6. With \<open>a\<close> and \<open>b\<close> sub-results that stay children of their own (neither
  \<open>Empty\<close>, nor a \<open>Maybe\<close>, nor an \<open>Alternative\<close>), the combinator turns \<open>[a, Empty]\<close>
  into \<open>Maybe a\<close> and \<open>[a, Maybe b]\<close> into \<open>Maybe (Alternative [a, b])\<close>; \<open>[Empty]\<close>
  gives \<open>Empty\<close>. For every list of sub-results: no remaining child gives \<open>Empty\<close>; one
  remaining child gives \<open>Maybe\<close> of it when an empty alternative was recorded and the child
  itself otherwise; two or more give the \<open>Alternative\<close> of the remaining children, inside
  a \<open>Maybe\<close> exactly when an empty alternative was recorded.
\<close>

theorem make_alt_rule_laws:
  "(kept_child a \<longrightarrow> make_alt_rule [a, Empty] = Maybe a) \<and>
   (kept_child a \<and> kept_child b \<longrightarrow>
      make_alt_rule [a, Maybe b] = Maybe (Alternative [a, b])) \<and>
   make_alt_rule [Empty] = Empty \<and>
   make_alt_rule content =
     (let children = remaining_children content; recorded = empty_alt_recorded content
      in if children = [] then Empty
         else if length children = 1 then (if recorded then Maybe (hd children) else hd children)
         else if recorded then Maybe (Alternative children) else Alternative children)"
proof (intro conjI impI)
  assume a: "kept_child a"
  have "alt_items Empty = []"
    by (simp add: alt_items_def unwrap_Maybe_def)
  then have "remaining_children [a, Empty] = [a]"
    by (simp add: remaining_children_def alt_items_kept [OF a])
  then show "make_alt_rule [a, Empty] = Maybe a"
    by (simp add: make_alt_rule_general empty_alt_recorded_def)
next
  assume ab: "kept_child a \<and> kept_child b"
  then have b: "b \<noteq> Empty" "\<not> isinstance_Alternative b" by (simp_all add: kept_child_def)
  have "remaining_children [a, Maybe b] = [a, b]"
    using ab by (simp add: remaining_children_def alt_items_kept alt_items_Maybe_kept [OF b])
  then show "make_alt_rule [a, Maybe b] = Maybe (Alternative [a, b])"
    by (simp add: make_alt_rule_general empty_alt_recorded_def)
next
  show "make_alt_rule [Empty] = Empty"
    by (simp add: make_alt_rule_def)
next
  show "make_alt_rule content =
     (let children = remaining_children content; recorded = empty_alt_recorded content
      in if children = [] then Empty
         else if length children = 1 then (if recorded then Maybe (hd children) else hd children)
         else if recorded then Maybe (Alternative children) else Alternative children)"
    by (rule make_alt_rule_general)
qed

theorem make_alt_rule_laws_witness:
  "make_alt_rule [Literal ''a'', Empty] = Maybe (Literal ''a'') \<and>
   make_alt_rule [Literal ''a'', Maybe (Literal ''b'')] =
     Maybe (Alternative [Literal ''a'', Literal ''b'']) \<and>
   make_alt_rule [Literal ''a'', Alternative [Literal ''b'', Literal ''c'']] =
     Alternative [Literal ''a'', Literal ''b'', Literal ''c''] \<and>
   make_alt_rule [Literal ''a'', Maybe (Alternative [Literal ''b'', Literal ''c''])] =
     Maybe (Alternative [Literal ''a'', Literal ''b'', Literal ''c'']) \<and>
   make_alt_rule [Literal ''a''] = Literal ''a''"
  using make_alt_rule_laws [of "Literal ''a''" "Literal ''b''" "[Literal ''a'']"]
    make_alt_rule_laws
      [of Wildcard Wildcard "[Literal ''a'', Alternative [Literal ''b'', Literal ''c'']]"]
    make_alt_rule_laws
      [of Wildcard Wildcard "[Literal ''a'', Maybe (Alternative [Literal ''b'', Literal ''c''])]"]
  by (simp add: kept_child_def remaining_children_def alt_items_def unwrap_Maybe_def
      empty_alt_recorded_def)

subsection \<open>The invariant of the content tree\<close>

lemma wrap_suffix_invariant: "invariant e \<Longrightarrow> invariant (wrap_suffix e s)"
  by (auto simp: wrap_suffix_def split: option.splits)

lemma seq_items_invariant:
  "invariant x \<Longrightarrow> list_all (\<lambda>c. \<not> isinstance_Sequence c \<and> invariant c) (seq_items x)"
  by (cases x) (auto simp: seq_items_def)

lemma seq_items_nonempty: "invariant x \<Longrightarrow> seq_items x \<noteq> []"
  by (cases x) (auto simp: seq_items_def)

lemma seq_elements_invariant:
  "list_all invariant content \<Longrightarrow>
   list_all (\<lambda>c. \<not> isinstance_Sequence c \<and> invariant c) (concat (map seq_items content))"
  by (induction content) (auto simp: seq_items_invariant)

lemma seq_elements_nonempty:
  "content \<noteq> [] \<Longrightarrow> list_all invariant content \<Longrightarrow> concat (map seq_items content) \<noteq> []"
  by (cases content) (auto simp: seq_items_nonempty)

lemma make_seq_rule_invariant:
  assumes "content \<noteq> []" and "list_all invariant content"
  shows "invariant (make_seq_rule content)"
proof -
  let ?es = "concat (map seq_items content)"
  have all: "list_all (\<lambda>c. \<not> isinstance_Sequence c \<and> invariant c) ?es"
    using assms(2) by (rule seq_elements_invariant)
  have ne: "?es \<noteq> []" using assms by (rule seq_elements_nonempty)
  show ?thesis
  proof (cases "length ?es = 1")
    case True
    then obtain e where "?es = [e]" by (cases ?es) auto
    with all show ?thesis by (simp add: make_seq_rule_def seq_loop_concat)
  next
    case False
    with ne have "2 \<le> length ?es" by (cases ?es) (auto simp: Suc_le_eq)
    with all False show ?thesis by (simp add: make_seq_rule_def seq_loop_concat)
  qed
qed

lemma alt_items_invariant:
  "invariant x \<Longrightarrow> list_all (\<lambda>c. \<not> isinstance_Alternative c \<and> invariant c) (alt_items x)"
  by (cases x) (auto simp: alt_items_def unwrap_Maybe_def split: rule_content.splits)

lemma alt_items_single: "invariant x \<Longrightarrow> alt_items x = [y] \<Longrightarrow> \<not> isinstance_Maybe y"
  by (cases x) (auto simp: alt_items_def unwrap_Maybe_def split: rule_content.splits if_splits)

lemma alt_children_invariant:
  "list_all invariant content \<Longrightarrow>
   list_all (\<lambda>c. \<not> isinstance_Alternative c \<and> invariant c) (remaining_children content)"
proof (induction content)
  case Nil
  then show ?case by (simp add: remaining_children_def)
next
  case (Cons x xs)
  then show ?case by (simp add: remaining_children_Cons alt_items_invariant)
qed

lemma alt_children_single:
  "list_all invariant content \<Longrightarrow> remaining_children content = [y] \<Longrightarrow> \<not> isinstance_Maybe y"
proof (induction content)
  case Nil
  then show ?case by (simp add: remaining_children_def)
next
  case (Cons x xs)
  from Cons.prems(2) have "alt_items x @ remaining_children xs = [y]"
    by (simp add: remaining_children_Cons)
  then consider "alt_items x = [y]" | "remaining_children xs = [y]"
    by (auto simp: append_eq_Cons_conv)
  then show ?case using Cons alt_items_single by cases auto
qed

lemma make_alt_rule_invariant:
  assumes "list_all invariant content"
  shows "invariant (make_alt_rule content)"
proof -
  let ?cs = "remaining_children content"
  have all: "list_all (\<lambda>c. \<not> isinstance_Alternative c \<and> invariant c) ?cs"
    using assms by (rule alt_children_invariant)
  consider "?cs = []" | y where "?cs = [y]" | "2 \<le> length ?cs"
    by (cases ?cs rule: list.exhaust, simp, rename_tac a l, case_tac l, auto)
  then show ?thesis
  proof cases
    case 1
    then show ?thesis by (simp add: make_alt_rule_general)
  next
    case 2
    with all alt_children_single [OF assms 2] show ?thesis
      by (simp add: make_alt_rule_general Let_def)
  next
    case 3
    with all show ?thesis by (auto simp: make_alt_rule_general Let_def)
  qed
qed

text \<open>
  C7. The three builders keep the invariant: the Sequence and the Alternative combinator
  on a non-empty list of sub-results that satisfy it, suffix application on an element that
  satisfies it. In the result no \<open>Sequence\<close> has a \<open>Sequence\<close> child, no \<open>Alternative\<close>
  an \<open>Alternative\<close> child, each of them has at least two children, and no \<open>Maybe\<close> has a
  \<open>Maybe\<close> child.
\<close>

theorem builders_keep_invariant:
  "(content \<noteq> [] \<and> list_all invariant content \<longrightarrow> invariant (make_seq_rule content)) \<and>
   (content \<noteq> [] \<and> list_all invariant content \<longrightarrow> invariant (make_alt_rule content)) \<and>
   (invariant element \<longrightarrow> invariant (wrap_suffix element suffix))"
  using make_seq_rule_invariant make_alt_rule_invariant wrap_suffix_invariant by blast

theorem builders_keep_invariant_witness:
  "invariant (make_seq_rule [Sequence [Literal ''a'', Literal ''b''], Maybe (Literal ''c'')]) \<and>
   make_seq_rule [Sequence [Literal ''a'', Literal ''b''], Maybe (Literal ''c'')] =
     Sequence [Literal ''a'', Literal ''b'', Maybe (Literal ''c'')] \<and>
   invariant (make_alt_rule [Sequence [Literal ''a'', Literal ''b''], Maybe (Literal ''c'')]) \<and>
   make_alt_rule [Sequence [Literal ''a'', Literal ''b''], Maybe (Literal ''c'')] =
     Maybe (Alternative [Sequence [Literal ''a'', Literal ''b''], Literal ''c'']) \<and>
   invariant (wrap_suffix (Maybe (Literal ''c'')) (Some ''?''))"
  using builders_keep_invariant
    [of "[Sequence [Literal ''a'', Literal ''b''], Maybe (Literal ''c'')]"
      "Maybe (Literal ''c'')" "Some ''?''"]
  by (simp add: make_seq_rule_def make_alt_rule_def)

section \<open>Lookup in a model\<close>

text \<open>
  C10. \<open>lookup_local\<close> returns the lexer rule registered under a name whenever there is
  one, also when a parser rule is registered under the same name; the parser rule when
  only a parser rule is registered; and \<open>None\<close>, without raising, when the name is in
  neither map.
\<close>

theorem lookup_local_precedence:
  "(lexer_rules m nm = Some l \<longrightarrow> lookup_local m nm = Some (LexerRule l)) \<and>
   (lexer_rules m nm = None \<and> parser_rules m nm = Some p \<longrightarrow>
      lookup_local m nm = Some (ParserRule p)) \<and>
   (lexer_rules m nm = None \<and> parser_rules m nm = None \<longrightarrow> lookup_local m nm = None)"
  by (simp add: lookup_local_def)

theorem lookup_local_precedence_witness:
  "lookup_local
     ((ModelImpl ''/g/G.g4'' 0 False)
        \<lparr>lexer_rules := [''A'' \<mapsto> token_rule 0 (ModelImpl ''/g/G.g4'' 0 False) (''A'', 1)],
         parser_rules := [''A'' \<mapsto> make_parser_rule 0 (ModelImpl ''/g/G.g4'' 0 False) ''A'' 2
                                     Wildcard initial_docs_vars]\<rparr>) ''A''
     = Some (LexerRule (token_rule 0 (ModelImpl ''/g/G.g4'' 0 False) (''A'', 1))) \<and>
   lookup_local
     ((ModelImpl ''/g/G.g4'' 0 False)
        \<lparr>parser_rules := [''a'' \<mapsto> make_parser_rule 0 (ModelImpl ''/g/G.g4'' 0 False) ''a'' 2
                                     Wildcard initial_docs_vars]\<rparr>) ''a''
     = Some (ParserRule (make_parser_rule 0 (ModelImpl ''/g/G.g4'' 0 False) ''a'' 2
                           Wildcard initial_docs_vars)) \<and>
   lookup_local (ModelImpl ''/g/G.g4'' 0 False) ''a'' = None"
  using lookup_local_precedence
      [of "(ModelImpl ''/g/G.g4'' 0 False)
             \<lparr>lexer_rules := [''A'' \<mapsto> token_rule 0 (ModelImpl ''/g/G.g4'' 0 False) (''A'', 1)],
              parser_rules := [''A'' \<mapsto> make_parser_rule 0 (ModelImpl ''/g/G.g4'' 0 False) ''A'' 2
                                          Wildcard initial_docs_vars]\<rparr>"
          "''A''" "token_rule 0 (ModelImpl ''/g/G.g4'' 0 False) (''A'', 1)"]
    lookup_local_precedence
      [of "(ModelImpl ''/g/G.g4'' 0 False)
             \<lparr>parser_rules := [''a'' \<mapsto> make_parser_rule 0 (ModelImpl ''/g/G.g4'' 0 False) ''a'' 2
                                          Wildcard initial_docs_vars]\<rparr>"
          "''a''" _
          "make_parser_rule 0 (ModelImpl ''/g/G.g4'' 0 False) ''a'' 2 Wildcard initial_docs_vars"]
    lookup_local_precedence [of "ModelImpl ''/g/G.g4'' 0 False" "''a''"]
  by (simp add: ModelImpl_def)

section \<open>Lexer rules and their literals\<close>

lemma heap_update_model:
  "self < length (heap s) \<Longrightarrow> heap (update_model self f s) ! self = f (heap s ! self)"
  by (simp add: update_model_def)

lemma heap_log_all: "heap (log_all ds s) = heap s"
  by (simp add: log_all_def)

lemma length_heap_update_model: "length (heap (update_model self f s)) = length (heap s)"
  by (simp add: update_model_def)

lemma lexer_rules_set_lexer_rule:
  "self < length (heap s) \<Longrightarrow>
   lexer_rules (heap (set_lexer_rule self nm r s) ! self) = (lexer_rules (heap s ! self))(nm \<mapsto> r)"
  by (simp add: set_lexer_rule_def heap_update_model)

lemma length_heap_set_lexer_rule: "length (heap (set_lexer_rule self nm r s)) = length (heap s)"
  by (simp add: set_lexer_rule_def length_heap_update_model)

lemma single_literal_rule_body:
  "LexerRuleLoader_visit_body self
     (LexerAltList [LexerAlt (LexerElements [LexerElementAtom (LexerAtom (TerminalLit v)) None])])
   = (if v = empty_literal then Empty else Literal v)"
  by (simp add: make_alt_rule_def make_seq_rule_def wrap_suffix_def)

text \<open>
  C9, as the claim states it, fails for a rule whose literal is used again by a later
  rule: \<^verbatim>\<open>set_lexer_rule\<close> is a plain assignment to the dictionary, so the later
  rule takes the entry of the literal. In \<^verbatim>\<open>A: 'x'; mode M; B: 'x';\<close> the content of
  \<open>A\<close> is a \<open>Literal\<close>, the lookup by the name \<open>A\<close> returns the rule \<open>A\<close>, and the
  lookup by the literal text returns the rule \<open>B\<close>.
\<close>

theorem lexer_literal_overwritten_counterexample:
  "(case LexerRuleLoader_visit example_env 0 shared_literal_tree
           (snd (new_model (ModelImpl ''/g/Modes.g4'' 0 False) initial_state)) of
      Inl err \<Rightarrow> False
    | Inr s' \<Rightarrow>
        lookup_local (heap s' ! 0) ''A''
          = Some (LexerRule (make_lexer_rule 0 (ModelImpl ''/g/Modes.g4'' 0 False) ''A'' False 1
                               (Literal x_literal) initial_docs_vars)) \<and>
        lookup_local (heap s' ! 0) x_literal
          = Some (LexerRule (make_lexer_rule 0 (ModelImpl ''/g/Modes.g4'' 0 False) ''B'' False 2
                               (Literal x_literal) initial_docs_vars)) \<and>
        lookup_local (heap s' ! 0) x_literal \<noteq> lookup_local (heap s' ! 0) ''A'')"
  by code_simp

lemma case_sumE:
  assumes "case r of Inl err \<Rightarrow> False | Inr s \<Rightarrow> P s"
  obtains s where "r = Inr s" and "P s"
  using assms by (cases r) simp_all

lemma visitLexerRuleSpec_lexer_rules:
  assumes self: "self < length (heap s)"
    and v: "visitLexerRuleSpec e self nm docs frag block line s = Inr s'"
  shows "length (heap s') = length (heap s) \<and>
         (\<forall>k. k \<notin> lexer_rule_keys self (LexerRuleSpec nm docs frag block line) \<longrightarrow>
            lexer_rules (heap s' ! self) k = lexer_rules (heap s ! self) k)"
proof -
  let ?m = "heap s ! self"
  let ?c = "LexerRuleLoader_visit_body self block"
  from v obtain doc_info reported
    where d: "load_docs e (path ?m) (offset ?m) docs = Inr (doc_info, reported)"
    by (auto simp: visitLexerRuleSpec_def Let_def split: sum.splits)
  let ?r = "make_lexer_rule self ?m nm frag line ?c doc_info"
  let ?s1 = "set_lexer_rule self nm ?r (log_all reported s)"
  have nm: "rule_name ?r = nm" by (simp add: make_lexer_rule_def)
  have len1: "self < length (heap (log_all reported s))" using self by (simp add: heap_log_all)
  have l1: "lexer_rules (heap ?s1 ! self) = (lexer_rules (heap s ! self))(nm \<mapsto> ?r)"
    using len1 by (simp add: lexer_rules_set_lexer_rule heap_log_all)
  have n1: "length (heap ?s1) = length (heap s)"
    by (simp add: length_heap_set_lexer_rule heap_log_all)
  show ?thesis
  proof (cases "isinstance_Literal ?c")
    case True
    then obtain literal where lit: "?c = Literal literal" by (cases ?c) auto
    have s': "s' = set_lexer_rule self literal ?r ?s1"
      using v d lit nm by (simp add: visitLexerRuleSpec_def Let_def)
    have "lexer_rules (heap s' ! self) = (lexer_rules (heap s ! self))(nm \<mapsto> ?r, literal \<mapsto> ?r)"
      unfolding s' using self n1 l1 by (simp add: lexer_rules_set_lexer_rule)
    moreover have "length (heap s') = length (heap s)"
      unfolding s' using n1 by (simp add: length_heap_set_lexer_rule)
    ultimately show ?thesis using lit by simp
  next
    case False
    have s': "s' = ?s1"
      using v d False nm by (cases ?c) (simp_all add: visitLexerRuleSpec_def Let_def)
    show ?thesis unfolding s' using l1 n1 by simp
  qed
qed

lemma LexerRuleLoader_other_keys:
  shows "LexerRuleLoader_visit e self t s = Inr s' \<Longrightarrow> self < length (heap s) \<Longrightarrow>
           length (heap s') = length (heap s) \<and>
           (\<forall>k. k \<notin> lexer_rule_keys self t \<longrightarrow>
              lexer_rules (heap s' ! self) k = lexer_rules (heap s ! self) k)"
    and "LexerRuleLoader_visitChildren e self ts s = Inr s' \<Longrightarrow> self < length (heap s) \<Longrightarrow>
           length (heap s') = length (heap s) \<and>
           (\<forall>k. k \<notin> lexer_rule_keys_of self ts \<longrightarrow>
              lexer_rules (heap s' ! self) k = lexer_rules (heap s ! self) k)"
proof (induction e self t s and e self ts s arbitrary: s' and s'
    rule: LexerRuleLoader_visit_LexerRuleLoader_visitChildren.induct)
  case (3 e self nm docs frag block line s)
  then have "visitLexerRuleSpec e self nm docs frag block line s = Inr s'" by simp
  with "3.prems"(2) show ?case by (rule visitLexerRuleSpec_lexer_rules)
next
  case (10 e self child children s)
  from "10.prems"(1) obtain s1 where a: "LexerRuleLoader_visit e self child s = Inr s1"
    and b: "LexerRuleLoader_visitChildren e self children s1 = Inr s'"
    by (auto split: sum.splits)
  have 1: "length (heap s1) = length (heap s) \<and>
           (\<forall>k. k \<notin> lexer_rule_keys self child \<longrightarrow>
              lexer_rules (heap s1 ! self) k = lexer_rules (heap s ! self) k)"
    using "10.IH"(1) a "10.prems"(2) by blast
  then have "self < length (heap s1)" using "10.prems"(2) by simp
  then have 2: "length (heap s') = length (heap s1) \<and>
           (\<forall>k. k \<notin> lexer_rule_keys_of self children \<longrightarrow>
              lexer_rules (heap s' ! self) k = lexer_rules (heap s1 ! self) k)"
    using "10.IH"(2) a b by blast
  from 1 2 show ?case by simp
qed simp_all

text \<open>
  C9, amended. \<^verbatim>\<open>visitLexerRuleSpec\<close> on a lexer rule of a model, where
  \<^verbatim>\<open>load_docs\<close> returns: the rule \<open>r\<close> it makes is registered under its name; when
  the content built from the body is a \<open>Literal\<close>, it is also registered under the text
  of the literal, both lookups return \<open>r\<close>, and nothing else of the map changes (an entry
  that an earlier rule had under one of the two keys is overwritten); when the content is
  no \<open>Literal\<close>, only the entry of the name changes. Whatever the loader visits
  afterwards, the lookup by the name still returns \<open>r\<close> unless a later lexer rule is
  registered under that key, and so does the lookup by the literal. The body of
  \<^verbatim>\<open>FOO: 'foo';\<close> builds to a \<open>Literal\<close>, the body with the empty string literal to
  \<open>Empty\<close>.
\<close>

theorem lexer_rule_registration:
  assumes self: "self < length (heap s)"
    and docs: "load_docs e (path (heap s ! self)) (offset (heap s ! self)) docs
                 = Inr (doc_info, reported)"
    and r: "r = make_lexer_rule self (heap s ! self) nm frag line
                  (LexerRuleLoader_visit_body self block) doc_info"
  shows "(case visitLexerRuleSpec e self nm docs frag block line s of
            Inl err \<Rightarrow> False
          | Inr s1 \<Rightarrow>
              lookup_local (heap s1 ! self) nm = Some (LexerRule r) \<and>
              (case LexerRuleLoader_visit_body self block of
                 Literal literal \<Rightarrow>
                   lookup_local (heap s1 ! self) literal = Some (LexerRule r) \<and>
                   lexer_rules (heap s1 ! self)
                     = (lexer_rules (heap s ! self))(nm \<mapsto> r, literal \<mapsto> r)
               | other \<Rightarrow>
                   lexer_rules (heap s1 ! self) = (lexer_rules (heap s ! self))(nm \<mapsto> r)) \<and>
              (\<forall>rest s'. LexerRuleLoader_visitChildren e self rest s1 = Inr s' \<longrightarrow>
                 (nm \<notin> lexer_rule_keys_of self rest \<longrightarrow>
                    lookup_local (heap s' ! self) nm = Some (LexerRule r)) \<and>
                 (\<forall>literal. LexerRuleLoader_visit_body self block = Literal literal \<longrightarrow>
                    literal \<notin> lexer_rule_keys_of self rest \<longrightarrow>
                    lookup_local (heap s' ! self) literal = Some (LexerRule r)))) \<and>
         LexerRuleLoader_visit_body self
           (LexerAltList
              [LexerAlt (LexerElements [LexerElementAtom (LexerAtom (TerminalLit v)) None])])
           = (if v = empty_literal then Empty else Literal v)"
proof -
  let ?c = "LexerRuleLoader_visit_body self block"
  let ?s1 = "set_lexer_rule self nm r (log_all reported s)"
  have nm: "rule_name r = nm" by (simp add: r make_lexer_rule_def)
  have len1: "self < length (heap (log_all reported s))" using self by (simp add: heap_log_all)
  have l1: "lexer_rules (heap ?s1 ! self) = (lexer_rules (heap s ! self))(nm \<mapsto> r)"
    using len1 by (simp add: lexer_rules_set_lexer_rule heap_log_all)
  have len2: "self < length (heap ?s1)" using len1 by (simp add: length_heap_set_lexer_rule)
  have kept: "(nm \<notin> lexer_rule_keys_of self rest \<longrightarrow>
                 lookup_local (heap s' ! self) nm = Some (LexerRule r)) \<and>
              (\<forall>literal. ?c = Literal literal \<longrightarrow> literal \<notin> lexer_rule_keys_of self rest \<longrightarrow>
                 lookup_local (heap s' ! self) literal = Some (LexerRule r))"
    if len: "self < length (heap s1)"
      and nm1: "lexer_rules (heap s1 ! self) nm = Some r"
      and lit1: "\<And>literal. ?c = Literal literal \<Longrightarrow> lexer_rules (heap s1 ! self) literal = Some r"
      and rest: "LexerRuleLoader_visitChildren e self rest s1 = Inr s'"
    for s1 rest s'
  proof -
    from LexerRuleLoader_other_keys(2) [OF rest len]
    have k: "\<And>k. k \<notin> lexer_rule_keys_of self rest \<Longrightarrow>
               lexer_rules (heap s' ! self) k = lexer_rules (heap s1 ! self) k"
      by blast
    show ?thesis using k nm1 lit1 by (simp add: lookup_local_def)
  qed
  have "case visitLexerRuleSpec e self nm docs frag block line s of
            Inl err \<Rightarrow> False
          | Inr s1 \<Rightarrow>
              lookup_local (heap s1 ! self) nm = Some (LexerRule r) \<and>
              (case ?c of
                 Literal literal \<Rightarrow>
                   lookup_local (heap s1 ! self) literal = Some (LexerRule r) \<and>
                   lexer_rules (heap s1 ! self)
                     = (lexer_rules (heap s ! self))(nm \<mapsto> r, literal \<mapsto> r)
               | other \<Rightarrow>
                   lexer_rules (heap s1 ! self) = (lexer_rules (heap s ! self))(nm \<mapsto> r)) \<and>
              (\<forall>rest s'. LexerRuleLoader_visitChildren e self rest s1 = Inr s' \<longrightarrow>
                 (nm \<notin> lexer_rule_keys_of self rest \<longrightarrow>
                    lookup_local (heap s' ! self) nm = Some (LexerRule r)) \<and>
                 (\<forall>literal. ?c = Literal literal \<longrightarrow>
                    literal \<notin> lexer_rule_keys_of self rest \<longrightarrow>
                    lookup_local (heap s' ! self) literal = Some (LexerRule r)))"
  proof (cases "isinstance_Literal ?c")
    case True
    then obtain literal where lit: "?c = Literal literal" by (cases ?c) auto
    let ?s2 = "set_lexer_rule self literal r ?s1"
    have v: "visitLexerRuleSpec e self nm docs frag block line s = Inr ?s2"
      using docs lit nm r by (simp add: visitLexerRuleSpec_def Let_def)
    have l2: "lexer_rules (heap ?s2 ! self)
                = (lexer_rules (heap s ! self))(nm \<mapsto> r, literal \<mapsto> r)"
      using len2 l1 by (simp add: lexer_rules_set_lexer_rule)
    have len3: "self < length (heap ?s2)" using len2 by (simp add: length_heap_set_lexer_rule)
    have a: "lexer_rules (heap ?s2 ! self) nm = Some r"
      and b: "\<And>x. ?c = Literal x \<Longrightarrow> lexer_rules (heap ?s2 ! self) x = Some r"
      using l2 lit by simp_all
    have "\<forall>rest s'. LexerRuleLoader_visitChildren e self rest ?s2 = Inr s' \<longrightarrow>
                 (nm \<notin> lexer_rule_keys_of self rest \<longrightarrow>
                    lookup_local (heap s' ! self) nm = Some (LexerRule r)) \<and>
                 (\<forall>literal. ?c = Literal literal \<longrightarrow>
                    literal \<notin> lexer_rule_keys_of self rest \<longrightarrow>
                    lookup_local (heap s' ! self) literal = Some (LexerRule r))"
      using kept [OF len3 a b] by blast
    then show ?thesis using v l2 lit by (simp add: lookup_local_def)
  next
    case False
    have v: "visitLexerRuleSpec e self nm docs frag block line s = Inr ?s1"
      using docs False nm r by (cases ?c) (simp_all add: visitLexerRuleSpec_def Let_def)
    have a: "lexer_rules (heap ?s1 ! self) nm = Some r"
      and b: "\<And>x. ?c = Literal x \<Longrightarrow> lexer_rules (heap ?s1 ! self) x = Some r"
      using l1 False by simp_all
    have k: "\<forall>rest s'. LexerRuleLoader_visitChildren e self rest ?s1 = Inr s' \<longrightarrow>
                 (nm \<notin> lexer_rule_keys_of self rest \<longrightarrow>
                    lookup_local (heap s' ! self) nm = Some (LexerRule r)) \<and>
                 (\<forall>literal. ?c = Literal literal \<longrightarrow>
                    literal \<notin> lexer_rule_keys_of self rest \<longrightarrow>
                    lookup_local (heap s' ! self) literal = Some (LexerRule r))"
      using kept [OF len2 a b] by blast
    have "lookup_local (heap ?s1 ! self) nm = Some (LexerRule r) \<and>
          (case ?c of
             Literal literal \<Rightarrow>
               lookup_local (heap ?s1 ! self) literal = Some (LexerRule r) \<and>
               lexer_rules (heap ?s1 ! self)
                 = (lexer_rules (heap s ! self))(nm \<mapsto> r, literal \<mapsto> r)
           | other \<Rightarrow>
               lexer_rules (heap ?s1 ! self) = (lexer_rules (heap s ! self))(nm \<mapsto> r))"
      using l1 False by (cases ?c) (auto simp: lookup_local_def)
    with k show ?thesis unfolding v by simp
  qed
  then show ?thesis using single_literal_rule_body by simp
qed

theorem lexer_rule_registration_witness:
  "(case visitLexerRuleSpec example_env 0 ''FOO'' [] False
           (LexerAltList [LexerAlt (LexerElements
              [LexerElementAtom (LexerAtom (TerminalLit foo_literal)) None])]) 1
           (snd (new_model (ModelImpl ''/g/Lex.g4'' 0 False) initial_state)) of
      Inl err \<Rightarrow> False
    | Inr s1 \<Rightarrow>
        lookup_local (heap s1 ! 0) ''FOO'' = lookup_local (heap s1 ! 0) foo_literal \<and>
        lookup_local (heap s1 ! 0) ''FOO''
          = Some (LexerRule (make_lexer_rule 0 (ModelImpl ''/g/Lex.g4'' 0 False) ''FOO'' False 1
                               (Literal foo_literal) initial_docs_vars)) \<and>
        dom (lexer_rules (heap s1 ! 0)) = {''FOO'', foo_literal} \<and>
        (case LexerRuleLoader_visitChildren example_env 0
                [Node [LexerRuleSpec ''NONE'' [] False
                   (LexerAltList [LexerAlt (LexerElements
                      [LexerElementAtom (LexerAtom (TerminalLit empty_literal)) None])]) 1]] s1 of
           Inl err \<Rightarrow> False
         | Inr s' \<Rightarrow>
             lookup_local (heap s' ! 0) ''FOO'' = lookup_local (heap s' ! 0) foo_literal \<and>
             lookup_local (heap s' ! 0) ''FOO''
               = Some (LexerRule (make_lexer_rule 0 (ModelImpl ''/g/Lex.g4'' 0 False) ''FOO''
                                    False 1 (Literal foo_literal) initial_docs_vars)))) \<and>
   (case visitLexerRuleSpec example_env 0 ''NONE'' [] False
           (LexerAltList [LexerAlt (LexerElements
              [LexerElementAtom (LexerAtom (TerminalLit empty_literal)) None])]) 1
           (snd (new_model (ModelImpl ''/g/Lex.g4'' 0 False) initial_state)) of
      Inl err \<Rightarrow> False
    | Inr s1 \<Rightarrow>
        lookup_local (heap s1 ! 0) ''NONE''
          = Some (LexerRule (make_lexer_rule 0 (ModelImpl ''/g/Lex.g4'' 0 False) ''NONE'' False 1
                               Empty initial_docs_vars)) \<and>
        dom (lexer_rules (heap s1 ! 0)) = {''NONE''})"
proof -
  let ?s0 = "snd (new_model (ModelImpl ''/g/Lex.g4'' 0 False) initial_state)"
  let ?foo = "LexerAltList [LexerAlt (LexerElements
                [LexerElementAtom (LexerAtom (TerminalLit foo_literal)) None])]"
  let ?none = "LexerAltList [LexerAlt (LexerElements
                 [LexerElementAtom (LexerAtom (TerminalLit empty_literal)) None])]"
  let ?rest = "[Node [LexerRuleSpec ''NONE'' [] False ?none 1]]"
  let ?r = "make_lexer_rule 0 (ModelImpl ''/g/Lex.g4'' 0 False) ''FOO'' False 1
              (Literal foo_literal) initial_docs_vars"
  have h: "heap ?s0 = [ModelImpl ''/g/Lex.g4'' 0 False]"
    by (simp add: new_model_def initial_state_def)
  have self: "0 < length (heap ?s0)" by (simp add: h)
  have docs: "load_docs example_env (path (heap ?s0 ! 0)) (offset (heap ?s0 ! 0)) []
                = Inr (initial_docs_vars, [])"
    by (simp add: load_docs_def)
  have foo: "LexerRuleLoader_visit_body 0 ?foo = Literal foo_literal"
    by (simp add: make_alt_rule_def make_seq_rule_def wrap_suffix_def foo_literal_def
        empty_literal_def apostrophe_def)
  have none: "LexerRuleLoader_visit_body 0 ?none = Empty"
    by (simp add: make_alt_rule_def make_seq_rule_def wrap_suffix_def)
  note LexerRuleLoader_visit_body.simps [simp del]
  have l0: "lexer_rules (ModelImpl ''/g/Lex.g4'' 0 False) = Map.empty"
    by (simp add: ModelImpl_def)
  have keys: "lexer_rule_keys_of 0 ?rest = {''NONE''}"
    by (simp add: none)
  have fl: "foo_literal \<noteq> ''NONE''" "foo_literal \<noteq> ''FOO''"
    by (simp_all add: foo_literal_def apostrophe_def)
  note T = lexer_rule_registration [OF self docs refl, where nm = "''FOO''" and frag = False
      and line = 1 and block = ?foo and v = foo_literal]
  have "\<exists>s1. visitLexerRuleSpec example_env 0 ''FOO'' [] False ?foo 1 ?s0 = Inr s1 \<and>
            lookup_local (heap s1 ! 0) ''FOO'' = Some (LexerRule ?r) \<and>
            lookup_local (heap s1 ! 0) foo_literal = Some (LexerRule ?r) \<and>
            lexer_rules (heap s1 ! 0) = [''FOO'' \<mapsto> ?r, foo_literal \<mapsto> ?r] \<and>
            (\<forall>rest s'. LexerRuleLoader_visitChildren example_env 0 rest s1 = Inr s' \<longrightarrow>
               (''FOO'' \<notin> lexer_rule_keys_of 0 rest \<longrightarrow>
                  lookup_local (heap s' ! 0) ''FOO'' = Some (LexerRule ?r)) \<and>
               (foo_literal \<notin> lexer_rule_keys_of 0 rest \<longrightarrow>
                  lookup_local (heap s' ! 0) foo_literal = Some (LexerRule ?r)))"
  proof (cases "visitLexerRuleSpec example_env 0 ''FOO'' [] False ?foo 1 ?s0")
    case (Inl err)
    with T show ?thesis by simp
  next
    case (Inr s1)
    with T show ?thesis by (simp add: foo l0 h)
  qed
  then obtain s1 where v1: "visitLexerRuleSpec example_env 0 ''FOO'' [] False ?foo 1 ?s0 = Inr s1"
    and a: "lookup_local (heap s1 ! 0) ''FOO'' = Some (LexerRule ?r)"
    and b: "lookup_local (heap s1 ! 0) foo_literal = Some (LexerRule ?r)"
    and c: "lexer_rules (heap s1 ! 0) = [''FOO'' \<mapsto> ?r, foo_literal \<mapsto> ?r]"
    and k: "\<And>rest s'. LexerRuleLoader_visitChildren example_env 0 rest s1 = Inr s' \<Longrightarrow>
               (''FOO'' \<notin> lexer_rule_keys_of 0 rest \<longrightarrow>
                  lookup_local (heap s' ! 0) ''FOO'' = Some (LexerRule ?r)) \<and>
               (foo_literal \<notin> lexer_rule_keys_of 0 rest \<longrightarrow>
                  lookup_local (heap s' ! 0) foo_literal = Some (LexerRule ?r))"
    by blast
  have "case visitLexerRuleSpec example_env 0 ''FOO'' [] False ?foo 1 ?s0 of
          Inl err \<Rightarrow> False
        | Inr s1 \<Rightarrow>
            (case LexerRuleLoader_visitChildren example_env 0 ?rest s1 of
               Inl err \<Rightarrow> False
             | Inr s' \<Rightarrow> True)"
    by code_simp
  then have "case LexerRuleLoader_visitChildren example_env 0 ?rest s1 of
               Inl err \<Rightarrow> False
             | Inr s' \<Rightarrow> True"
    by (simp only: v1 sum.case)
  then obtain s' where v2: "LexerRuleLoader_visitChildren example_env 0 ?rest s1 = Inr s'"
    by (rule case_sumE)
  have a': "lookup_local (heap s' ! 0) ''FOO'' = Some (LexerRule ?r)"
    and b': "lookup_local (heap s' ! 0) foo_literal = Some (LexerRule ?r)"
    using k [OF v2] fl unfolding keys by simp_all
  have d: "dom (lexer_rules (heap s1 ! 0)) = {''FOO'', foo_literal}"
    unfolding c by auto
  have first: "case visitLexerRuleSpec example_env 0 ''FOO'' [] False ?foo 1 ?s0 of
      Inl err \<Rightarrow> False
    | Inr s1 \<Rightarrow>
        lookup_local (heap s1 ! 0) ''FOO'' = lookup_local (heap s1 ! 0) foo_literal \<and>
        lookup_local (heap s1 ! 0) ''FOO'' = Some (LexerRule ?r) \<and>
        dom (lexer_rules (heap s1 ! 0)) = {''FOO'', foo_literal} \<and>
        (case LexerRuleLoader_visitChildren example_env 0 ?rest s1 of
           Inl err \<Rightarrow> False
         | Inr s' \<Rightarrow>
             lookup_local (heap s' ! 0) ''FOO'' = lookup_local (heap s' ! 0) foo_literal \<and>
             lookup_local (heap s' ! 0) ''FOO'' = Some (LexerRule ?r))"
    by (simp only: v1 v2 a b a' b' d sum.case simp_thms)
  note U = lexer_rule_registration [OF self docs refl, where nm = "''NONE''" and frag = False
      and line = 1 and block = ?none and v = empty_literal]
  have second: "case visitLexerRuleSpec example_env 0 ''NONE'' [] False ?none 1 ?s0 of
      Inl err \<Rightarrow> False
    | Inr s1 \<Rightarrow>
        lookup_local (heap s1 ! 0) ''NONE''
          = Some (LexerRule (make_lexer_rule 0 (ModelImpl ''/g/Lex.g4'' 0 False) ''NONE'' False 1
                               Empty initial_docs_vars)) \<and>
        dom (lexer_rules (heap s1 ! 0)) = {''NONE''}"
  proof (cases "visitLexerRuleSpec example_env 0 ''NONE'' [] False ?none 1 ?s0")
    case (Inl err)
    with U show ?thesis by simp
  next
    case (Inr s1)
    with U show ?thesis by (simp add: none l0 h)
  qed
  from first second show ?thesis by (rule conjI)
qed

section \<open>Loading a file or a text\<close>

lemma do_load_syntax_error:
  "number_of_syntax_errors (grammarSpec e txt) \<noteq> 0 \<Longrightarrow>
   do_load e c txt p off in_mem s =
     Some (Inr (length (heap s),
       s\<lparr>logged := logged s @ map (syntaxError p off) (listener_calls (grammarSpec e txt)),
         parses := Suc (parses s),
         heap := heap s @ [ModelImpl p off in_mem]\<rparr>))"
  by (simp add: do_load_def Let_def new_model_def log_all_def)

lemma empty_model_ModelImpl: "empty_model (ModelImpl p off in_mem)"
  by (simp add: empty_model_def ModelImpl_def)

lemma in_memory_ModelImpl: "in_memory (ModelImpl p off in_mem) = in_mem"
  by (simp add: ModelImpl_def)

lemma from_file_hit:
  "loaded s (normalized e a) = Some m \<Longrightarrow> from_file (Suc fuel) e a s = Some (Inr (m, s))"
  by (cases "path_and_offset a") (simp add: normalized_def Let_def)

lemma from_file_missing:
  "loaded s (normalized e a) = None \<Longrightarrow> file_at e (normalized e a) = Missing \<Longrightarrow>
   from_file (Suc fuel) e a s =
     Some (Inr (length (heap s),
       s\<lparr>logged := logged s @ [(Error, FileNotFound (normalized e a))],
         heap := heap s @ [ModelImpl (normalized e a) (snd (path_and_offset a)) False],
         loaded := (loaded s)(normalized e a \<mapsto> length (heap s))\<rparr>))"
  by (cases "path_and_offset a") (simp add: normalized_def Let_def new_model_def log_all_def)

lemma from_file_content:
  assumes "loaded s (normalized e a) = None" and "file_at e (normalized e a) = Content txt"
  shows "from_file (Suc fuel) e a s =
     (case do_load e (\<lambda>q. from_file fuel e (Path q)) txt (normalized e a)
             (snd (path_and_offset a)) False s of
        None \<Rightarrow> None
      | Some (Inl err) \<Rightarrow> Some (Inl err)
      | Some (Inr (m, s')) \<Rightarrow>
          Some (Inr (m, s'\<lparr>loaded := (loaded s')(normalized e a \<mapsto> m)\<rparr>)))"
proof (cases "path_and_offset a")
  case (Pair p off)
  then have n: "normalized e a = abspath e (normpath e p)"
    by (simp add: normalized_def)
  show ?thesis
    using assms unfolding n by (simp add: Pair Let_def)
qed

lemma from_file_unreadable:
  assumes "loaded s (normalized e a) = None" and "file_at e (normalized e a) = Unreadable err"
  shows "from_file (Suc fuel) e a s = Some (Inl err)"
proof (cases "path_and_offset a")
  case (Pair p off)
  then have n: "normalized e a = abspath e (normpath e p)"
    by (simp add: normalized_def)
  show ?thesis
    using assms unfolding n by (simp add: Pair Let_def)
qed

declare from_file.simps [simp del]

text \<open>
  C5. When the external parser reports at least one syntax error for a text, the load
  pipeline returns, without raising and whatever the fuel and the cache it is given: the
  result is a new model at a new address, with no lexer rules, no parser rules and no
  imports; beside that model the call only logs the calls of the error listeners and
  counts the parse. This holds for \<^verbatim>\<open>_do_load\<close>, for \<^verbatim>\<open>from_text\<close> and for
  \<^verbatim>\<open>from_file\<close> on a file with this text that is not memoized yet (which also
  memoizes the model).
\<close>

theorem syntax_errors_give_empty_model:
  assumes "number_of_syntax_errors (grammarSpec e txt) \<noteq> 0"
  shows "(case do_load e c txt p off in_mem s of
            Some (Inr (m, s')) \<Rightarrow>
              m = length (heap s) \<and> heap s' = heap s @ [ModelImpl p off in_mem] \<and>
              empty_model (heap s' ! m) \<and> loaded s' = loaded s \<and>
              logged s' = logged s @ map (syntaxError p off) (listener_calls (grammarSpec e txt))
          | other \<Rightarrow> False) \<and>
         (case from_text fuel e txt a s of
            Some (Inr (m, s')) \<Rightarrow>
              m = length (heap s) \<and> in_memory (heap s' ! m) \<and> empty_model (heap s' ! m) \<and>
              loaded s' = loaded s
          | other \<Rightarrow> False) \<and>
         (loaded s (normalized e a) = None \<and> file_at e (normalized e a) = Content txt \<longrightarrow>
            (case from_file (Suc fuel) e a s of
               Some (Inr (m, s')) \<Rightarrow>
                 m = length (heap s) \<and> \<not> in_memory (heap s' ! m) \<and> empty_model (heap s' ! m) \<and>
                 loaded s' = (loaded s)(normalized e a \<mapsto> m)
             | other \<Rightarrow> False))"
proof (intro conjI impI)
  show "case do_load e c txt p off in_mem s of
            Some (Inr (m, s')) \<Rightarrow>
              m = length (heap s) \<and> heap s' = heap s @ [ModelImpl p off in_mem] \<and>
              empty_model (heap s' ! m) \<and> loaded s' = loaded s \<and>
              logged s' = logged s @ map (syntaxError p off) (listener_calls (grammarSpec e txt))
          | other \<Rightarrow> False"
    by (simp add: do_load_syntax_error [OF assms] empty_model_ModelImpl)
next
  show "case from_text fuel e txt a s of
            Some (Inr (m, s')) \<Rightarrow>
              m = length (heap s) \<and> in_memory (heap s' ! m) \<and> empty_model (heap s' ! m) \<and>
              loaded s' = loaded s
          | other \<Rightarrow> False"
    by (simp add: from_text_def do_load_syntax_error [OF assms] empty_model_ModelImpl
        in_memory_ModelImpl split: prod.splits)
next
  assume "loaded s (normalized e a) = None \<and> file_at e (normalized e a) = Content txt"
  then have c: "loaded s (normalized e a) = None" "file_at e (normalized e a) = Content txt"
    by simp_all
  show "case from_file (Suc fuel) e a s of
               Some (Inr (m, s')) \<Rightarrow>
                 m = length (heap s) \<and> \<not> in_memory (heap s' ! m) \<and> empty_model (heap s' ! m) \<and>
                 loaded s' = (loaded s)(normalized e a \<mapsto> m)
             | other \<Rightarrow> False"
    by (simp add: from_file_content [OF c] do_load_syntax_error [OF assms]
        empty_model_ModelImpl in_memory_ModelImpl)
qed

theorem syntax_errors_give_empty_model_witness:
  "(case from_text 0 example_env broken_text in_memory_path initial_state of
      Some (Inr (m, s')) \<Rightarrow>
        m = 0 \<and> in_memory (heap s' ! m) \<and> empty_model (heap s' ! m) \<and> loaded s' = Map.empty
    | other \<Rightarrow> False) \<and>
   (case from_file 1 example_env (Path ''Broken.g4'') initial_state of
      Some (Inr (m, s')) \<Rightarrow>
        m = 0 \<and> \<not> in_memory (heap s' ! m) \<and> empty_model (heap s' ! m) \<and>
        loaded s' = [''/g/Broken.g4'' \<mapsto> 0]
    | other \<Rightarrow> False)"
proof -
  have n: "normalized example_env (Path ''Broken.g4'') = ''/g/Broken.g4''"
    by (simp add: normalized_def example_env_def path_and_offset_def posix_normpath_def
        posix_abspath_def posix_join_def startswith_def)
  have f: "file_at example_env ''/g/Broken.g4'' = Content broken_text"
    by (simp add: example_env_def example_file_at_def)
  have h: "number_of_syntax_errors (grammarSpec example_env broken_text) \<noteq> 0"
    by (simp add: example_env_def example_grammarSpec_def broken_text_def lex_text_def
        main_text_def)
  have t: "case from_text 0 example_env broken_text in_memory_path initial_state of
             Some (Inr (m, s')) \<Rightarrow>
               m = length (heap initial_state) \<and> in_memory (heap s' ! m) \<and>
               empty_model (heap s' ! m) \<and> loaded s' = loaded initial_state
           | other \<Rightarrow> False"
    using syntax_errors_give_empty_model
      [OF h, where s = initial_state and fuel = 0 and a = in_memory_path]
    by blast
  have "loaded initial_state (normalized example_env (Path ''Broken.g4'')) = None \<and>
        file_at example_env (normalized example_env (Path ''Broken.g4'')) = Content broken_text"
    by (simp add: n f initial_state_def)
  then have u: "case from_file (Suc 0) example_env (Path ''Broken.g4'') initial_state of
             Some (Inr (m, s')) \<Rightarrow>
               m = length (heap initial_state) \<and> \<not> in_memory (heap s' ! m) \<and>
               empty_model (heap s' ! m) \<and>
               loaded s' = (loaded initial_state)(normalized example_env (Path ''Broken.g4'') \<mapsto> m)
           | other \<Rightarrow> False"
    using syntax_errors_give_empty_model
      [OF h, where s = initial_state and fuel = 0 and a = "Path ''Broken.g4''"]
    by blast
  have i: "heap initial_state = []" "loaded initial_state = Map.empty"
    by (simp_all add: initial_state_def)
  show ?thesis
    using t u by (auto simp: n i split: option.splits sum.splits)
qed

text \<open>
  C4. \<^verbatim>\<open>from_file\<close> on a path that does not exist on disk and is not memoized yet
  (the branch of lines 57 to 60) returns without raising, whatever the fuel: the result is
  a new model with zero rules and zero imports that is not in memory, it is memoized under
  the normalized path, exactly one diagnostic is logged, and nothing is parsed.
\<close>

theorem from_file_missing_placeholder:
  assumes "file_at e (normalized e a) = Missing" and "loaded s (normalized e a) = None"
  shows "case from_file (Suc fuel) e a s of
           Some (Inr (m, s')) \<Rightarrow>
             m = length (heap s) \<and>
             heap s' = heap s @ [ModelImpl (normalized e a) (snd (path_and_offset a)) False] \<and>
             empty_model (heap s' ! m) \<and> \<not> in_memory (heap s' ! m) \<and>
             loaded s' = (loaded s)(normalized e a \<mapsto> m) \<and>
             logged s' = logged s @ [(Error, FileNotFound (normalized e a))] \<and>
             parses s' = parses s
         | other \<Rightarrow> False"
  by (simp add: from_file_missing [OF assms(2) assms(1)] empty_model_ModelImpl
      in_memory_ModelImpl)

theorem from_file_missing_placeholder_witness:
  "(case from_file 1 example_env (Path ''/nonexistent.g4'') initial_state of
      Some (Inr (m, s')) \<Rightarrow>
        m = 0 \<and> heap s' = [ModelImpl ''/nonexistent.g4'' 0 False] \<and>
        empty_model (heap s' ! m) \<and> \<not> in_memory (heap s' ! m) \<and>
        loaded s' = [''/nonexistent.g4'' \<mapsto> 0] \<and>
        logged s' = [(Error, FileNotFound ''/nonexistent.g4'')] \<and> parses s' = 0
    | other \<Rightarrow> False)"
proof -
  have n: "normalized example_env (Path ''/nonexistent.g4'') = ''/nonexistent.g4''"
    by (simp add: normalized_def example_env_def path_and_offset_def posix_normpath_def
        posix_abspath_def posix_join_def startswith_def)
  have f: "file_at example_env ''/nonexistent.g4'' = Missing"
    by (simp add: example_env_def example_file_at_def)
  have i: "heap initial_state = []" "loaded initial_state = Map.empty"
    "logged initial_state = []" "parses initial_state = 0"
    by (simp_all add: initial_state_def)
  have "file_at example_env (normalized example_env (Path ''/nonexistent.g4'')) = Missing"
    and "loaded initial_state (normalized example_env (Path ''/nonexistent.g4'')) = None"
    by (simp_all add: n f i)
  then show ?thesis
    using from_file_missing_placeholder
      [of example_env "Path ''/nonexistent.g4''" initial_state 0]
    by (auto simp: n i path_and_offset_def split: option.splits sum.splits)
qed

section \<open>Directives in comments\<close>

lemma dropWhile_prefix:
  "list_all P xs \<Longrightarrow> ys = [] \<or> \<not> P (hd ys) \<Longrightarrow> dropWhile P (xs @ ys) = ys"
  by (induction xs) (cases ys; auto)+

lemma takeWhile_prefix:
  "list_all P xs \<Longrightarrow> ys = [] \<or> \<not> P (hd ys) \<Longrightarrow> takeWhile P (xs @ ys) = xs"
  by (induction xs) (cases ys; auto)+

lemma isspace_not_cmd_char: "isspace c \<Longrightarrow> \<not> is_cmd_char c"
  by (auto simp: isspace_def is_cmd_char_def)

lemma startswith_append: "startswith (p @ r) p"
  by (simp add: startswith_def)

text \<open>
  A text of the shape of the pattern is matched, with the groups one expects: whitespace
  \<open>w1\<close> to \<open>w4\<close>, a command \<open>cmd\<close> of the command class, and a rest \<open>c\<close> of the line
  that does not start with whitespace; without whitespace between them, the rest must not
  start with a character of the command class.
\<close>

lemma CMD_RE_match_shape:
  assumes ws: "list_all isspace w1" "list_all isspace w2" "list_all isspace w3"
      "list_all isspace w4"
    and cmd: "cmd \<noteq> []" "list_all is_cmd_char cmd"
    and sep: "w4 = [] \<longrightarrow> c = [] \<or> \<not> is_cmd_char (hd c)"
    and c: "c = [] \<or> \<not> isspace (hd c)" "CHR 0x0A \<notin> set c"
  shows "CMD_RE_match (''//@'' @ w1 @ ''doc'' @ w2 @ '':'' @ w3 @ cmd @ w4 @ c) = Some (cmd, c)"
proof -
  let ?r3 = "cmd @ w4 @ c"
  let ?r2 = "'':'' @ w3 @ ?r3"
  let ?r1 = "''doc'' @ w2 @ ?r2"
  have cmd_hd: "\<not> isspace (hd cmd)"
    using cmd isspace_not_cmd_char by (cases cmd) auto
  have a: "dropWhile isspace (w1 @ ?r1) = ?r1"
    using ws(1) by (rule dropWhile_prefix) (simp add: isspace_def)
  have b: "dropWhile isspace (w2 @ ?r2) = ?r2"
    using ws(2) by (rule dropWhile_prefix) (simp add: isspace_def)
  have d: "dropWhile isspace (w3 @ ?r3) = ?r3"
    using ws(3) by (rule dropWhile_prefix) (use cmd(1) cmd_hd in simp)
  have nxt: "w4 @ c = [] \<or> \<not> is_cmd_char (hd (w4 @ c))"
    using sep ws(4) isspace_not_cmd_char by (cases w4) auto
  have t: "takeWhile is_cmd_char ?r3 = cmd"
    using cmd(2) nxt by (rule takeWhile_prefix)
  have e: "dropWhile is_cmd_char ?r3 = w4 @ c"
    using cmd(2) nxt by (rule dropWhile_prefix)
  have f: "dropWhile isspace (w4 @ c) = c"
    using ws(4) c(1) by (rule dropWhile_prefix)
  have g: "takeWhile (\<lambda>x. x \<noteq> CHR 0x0A) c = c"
    using c(2) by (auto simp: takeWhile_eq_all_conv)
  have s1: "startswith (''//@'' @ w1 @ ?r1) ''//@''" by (rule startswith_append)
  have s2: "startswith ?r1 ''doc''" by (rule startswith_append)
  have s3: "startswith ?r2 '':''" by (rule startswith_append)
  have d1: "drop 3 (''//@'' @ w1 @ ?r1) = w1 @ ?r1" by simp
  have d2: "drop 3 ?r1 = w2 @ ?r2" by simp
  have d3: "drop 1 ?r2 = w3 @ ?r3" by simp
  show ?thesis
    unfolding CMD_RE_match_def
    by (simp only: s1 s2 s3 d1 d2 d3 a b d t e f g Let_def cmd(1) if_False if_True
        not_True_eq_False not_False_eq_True)
qed

lemma py_int_minus_3: "py_int (strip ''-3'') = Some (- 3)"
  by (simp add: py_int_def strip_def lstrip_def rstrip_def isspace_def is_digit_def
      digit_value_def)

lemma directive_importance_minus_3:
  "directive pos ''importance'' ''-3'' (v, reported) =
     (v\<lparr>importance := - 3\<rparr>, reported @ [(Error, ImportanceNegative pos)])"
  by (simp add: directive_def py_int_minus_3 argument_check_def)

text \<open>
  C1, as the claim states it, fails: the text \<^verbatim>\<open>//@ importance -3\<close> does not match
  \<^verbatim>\<open>CMD_RE\<close>, which asks for \<^verbatim>\<open>doc:\<close> before the command. The importance stays 1,
  and the one diagnostic is that of an invalid command.
\<close>

theorem load_docs_importance_counterexample:
  "load_docs example_env ''/g/Lex.g4'' 0 [\<lparr>token_text = ''//@ importance -3'', token_line = 1\<rparr>]
     = Inr (initial_docs_vars,
            [(Error, InvalidCommand (''/g/Lex.g4'', 1) ''//@ importance -3'')]) \<and>
   importance initial_docs_vars \<noteq> - 3"
  by (simp add: load_docs_def load_docs_token_def startswith_def CMD_RE_match_def isspace_def
      initial_docs_vars_def)

text \<open>
  C1, amended. A comment run of exactly one token \<^verbatim>\<open>//@ doc:importance -3\<close>, with any
  whitespace after \<^verbatim>\<open>//@\<close>, around the colon and (at least one character) before
  \<^verbatim>\<open>-3\<close>, gives the importance \<open>-3\<close>, every other variable at its default, and
  exactly one diagnostic, the warning about a negative value. Every token whose text begins
  with \<^verbatim>\<open>//@\<close> is matched against \<^verbatim>\<open>//@ doc : <command> <rest-of-line>\<close>: when it
  does not match, an invalid command is reported and nothing else changes; when it does,
  the command runs on the two groups; and a text of that shape matches.
\<close>

theorem load_docs_directive:
  "(list_all isspace w1 \<and> list_all isspace w2 \<and> list_all isspace w3 \<and> list_all isspace w4
      \<and> w4 \<noteq> [] \<longrightarrow>
      load_docs e p off
        [\<lparr>token_text = ''//@'' @ w1 @ ''doc'' @ w2 @ '':'' @ w3 @ ''importance'' @ w4 @ ''-3'',
          token_line = l\<rparr>]
        = Inr (initial_docs_vars\<lparr>importance := - 3\<rparr>,
               [(Error, ImportanceNegative (p, l + off))])) \<and>
   (startswith s ''//@'' \<longrightarrow>
      load_docs_token e p off \<lparr>token_text = s, token_line = l\<rparr> acc
        = (case CMD_RE_match s of
             None \<Rightarrow> Inr (fst acc, snd acc @ [(Error, InvalidCommand (p, l + off) s)])
           | Some (cmd, c) \<Rightarrow> Inr (directive (p, l + off) cmd c acc))) \<and>
   (list_all isspace w1 \<and> list_all isspace w2 \<and> list_all isspace w3 \<and> list_all isspace w4
      \<and> cmd \<noteq> [] \<and> list_all is_cmd_char cmd
      \<and> (w4 = [] \<longrightarrow> c = [] \<or> \<not> is_cmd_char (hd c))
      \<and> (c = [] \<or> \<not> isspace (hd c)) \<and> CHR 0x0A \<notin> set c \<longrightarrow>
      CMD_RE_match (''//@'' @ w1 @ ''doc'' @ w2 @ '':'' @ w3 @ cmd @ w4 @ c) = Some (cmd, c))"
proof (intro conjI impI)
  assume w: "list_all isspace w1 \<and> list_all isspace w2 \<and> list_all isspace w3
               \<and> list_all isspace w4 \<and> w4 \<noteq> []"
  let ?s = "''//@'' @ w1 @ ''doc'' @ w2 @ '':'' @ w3 @ ''importance'' @ w4 @ ''-3''"
  have m: "CMD_RE_match ?s = Some (''importance'', ''-3'')"
    using w by (intro CMD_RE_match_shape) (simp_all add: is_cmd_char_def isspace_def)
  have st: "startswith ?s ''//@''" by (rule startswith_append)
  show "load_docs e p off [\<lparr>token_text = ?s, token_line = l\<rparr>]
          = Inr (initial_docs_vars\<lparr>importance := - 3\<rparr>,
                 [(Error, ImportanceNegative (p, l + off))])"
    by (simp add: load_docs_def load_docs_token_def st m directive_importance_minus_3
        del: append.simps append_Cons)
next
  assume "startswith s ''//@''"
  then show "load_docs_token e p off \<lparr>token_text = s, token_line = l\<rparr> acc
        = (case CMD_RE_match s of
             None \<Rightarrow> Inr (fst acc, snd acc @ [(Error, InvalidCommand (p, l + off) s)])
           | Some (cmd, c) \<Rightarrow> Inr (directive (p, l + off) cmd c acc))"
    by (simp add: load_docs_token_def Let_def)
next
  assume "list_all isspace w1 \<and> list_all isspace w2 \<and> list_all isspace w3 \<and> list_all isspace w4
      \<and> cmd \<noteq> [] \<and> list_all is_cmd_char cmd
      \<and> (w4 = [] \<longrightarrow> c = [] \<or> \<not> is_cmd_char (hd c))
      \<and> (c = [] \<or> \<not> isspace (hd c)) \<and> CHR 0x0A \<notin> set c"
  then show "CMD_RE_match (''//@'' @ w1 @ ''doc'' @ w2 @ '':'' @ w3 @ cmd @ w4 @ c) = Some (cmd, c)"
    by (intro CMD_RE_match_shape) simp_all
qed

theorem load_docs_directive_witness:
  "load_docs example_env ''/g/Lex.g4'' 0
     [\<lparr>token_text = ''//@ doc:importance -3'', token_line = 1\<rparr>]
     = Inr (initial_docs_vars\<lparr>importance := - 3\<rparr>,
            [(Error, ImportanceNegative (''/g/Lex.g4'', 1))]) \<and>
   load_docs_token example_env ''/g/Lex.g4'' 0
     \<lparr>token_text = ''//@ importance -3'', token_line = 1\<rparr> (initial_docs_vars, [])
     = Inr (initial_docs_vars, [(Error, InvalidCommand (''/g/Lex.g4'', 1) ''//@ importance -3'')]) \<and>
   CMD_RE_match ''//@doc : name  My rule'' = Some (''name'', ''My rule'')"
  using load_docs_directive
      [of "'' ''" "[]" "[]" "'' ''" example_env "''/g/Lex.g4''" 0 1 "''//@ importance -3''"
          "(initial_docs_vars, [])" "''importance''" "''-3''"]
    load_docs_directive
      [of "[]" "'' ''" "'' ''" "''  ''" example_env "''/g/Lex.g4''" 0 1 "''//@''"
          "(initial_docs_vars, [])" "''name''" "''My rule''"]
  by (simp add: isspace_def is_cmd_char_def startswith_def CMD_RE_match_def)

section \<open>The store under the loaders\<close>

lemma frame_except_refl: "frame_except A s s"
  by (simp add: frame_except_def)

lemma frame_except_trans:
  "frame_except A s s1 \<Longrightarrow> frame_except A s1 s2 \<Longrightarrow> frame_except A s s2"
proof -
  assume a: "frame_except A s s1" and b: "frame_except A s1 s2"
  have len: "length (heap s) \<le> length (heap s1)" "length (heap s1) \<le> length (heap s2)"
    using a b by (simp_all add: frame_except_def)
  have "heap s2 ! i = heap s ! i" if "i < length (heap s)" "i \<notin> A" for i
  proof -
    from that len have "i < length (heap s1)" by simp
    with that a b show ?thesis by (simp add: frame_except_def)
  qed
  moreover have "in_memory (heap s2 ! i) = in_memory (heap s ! i)" if "i < length (heap s)" for i
  proof -
    from that len have "i < length (heap s1)" by simp
    with that a b show ?thesis by (simp add: frame_except_def)
  qed
  moreover have "loaded s2 p = Some m" if "loaded s p = Some m" for p m
    using that a b by (simp add: frame_except_def)
  ultimately show ?thesis using len by (simp add: frame_except_def)
qed

lemma frame_except_mono: "A \<subseteq> B \<Longrightarrow> frame_except A s s' \<Longrightarrow> frame_except B s s'"
  by (auto simp: frame_except_def)

lemma frame_log_all: "frame_except A s (log_all ds s)"
  by (simp add: frame_except_def log_all_def)

lemma wf_log_all: "wf_state (log_all ds s) = wf_state s"
  by (simp add: wf_state_def log_all_def)

lemma frame_update_model:
  assumes f: "\<And>m. in_memory (f m) = in_memory m"
  shows "frame_except {self} s (update_model self f s)"
  unfolding frame_except_def
proof (intro conjI allI impI)
  show "length (heap s) \<le> length (heap (update_model self f s))"
    by (simp add: update_model_def)
next
  fix i
  assume "i < length (heap s)" and "i \<notin> {self}"
  then show "heap (update_model self f s) ! i = heap s ! i"
    by (simp add: update_model_def)
next
  fix i
  assume "i < length (heap s)"
  then show "in_memory (heap (update_model self f s) ! i) = in_memory (heap s ! i)"
    by (cases "i = self") (simp_all add: update_model_def f)
next
  fix p m
  assume "loaded s p = Some m"
  then show "loaded (update_model self f s) p = Some m"
    by (simp add: update_model_def)
qed

lemma wf_update_model:
  assumes f: "\<And>m. in_memory (f m) = in_memory m" and wf: "wf_state s"
  shows "wf_state (update_model self f s)"
  unfolding wf_state_def
proof (intro allI impI)
  fix p m
  assume "loaded (update_model self f s) p = Some m"
  then have "loaded s p = Some m" by (simp add: update_model_def)
  with wf have m: "m < length (heap s)" "\<not> in_memory (heap s ! m)"
    by (simp_all add: wf_state_def)
  then show "m < length (heap (update_model self f s)) \<and>
             \<not> in_memory (heap (update_model self f s) ! m)"
    by (cases "m = self") (simp_all add: update_model_def f)
qed

lemma frame_new_model: "frame_except A s (snd (new_model x s))"
  by (simp add: frame_except_def new_model_def nth_append)

lemma wf_new_model:
  assumes wf: "wf_state s"
  shows "wf_state (snd (new_model x s))"
  unfolding wf_state_def
proof (intro allI impI)
  fix p m
  assume "loaded (snd (new_model x s)) p = Some m"
  then have "loaded s p = Some m" by (simp add: new_model_def)
  with wf have m: "m < length (heap s)" "\<not> in_memory (heap s ! m)"
    by (simp_all add: wf_state_def)
  then show "m < length (heap (snd (new_model x s))) \<and>
             \<not> in_memory (heap (snd (new_model x s)) ! m)"
    by (simp add: new_model_def nth_append)
qed

lemma frame_set_lexer_rule: "frame_except {self} s (set_lexer_rule self nm r s)"
  unfolding set_lexer_rule_def by (rule frame_update_model) simp

lemma wf_set_lexer_rule: "wf_state s \<Longrightarrow> wf_state (set_lexer_rule self nm r s)"
  unfolding set_lexer_rule_def by (rule wf_update_model) simp_all

lemma frame_set_parser_rule: "frame_except {self} s (set_parser_rule self nm r s)"
  unfolding set_parser_rule_def by (rule frame_update_model) simp

lemma wf_set_parser_rule: "wf_state s \<Longrightarrow> wf_state (set_parser_rule self nm r s)"
  unfolding set_parser_rule_def by (rule wf_update_model) simp_all

lemma add_import_frame:
  assumes "add_import self other s = Inr s'"
  shows "frame_except {self} s s' \<and> (wf_state s \<longrightarrow> wf_state s')"
proof -
  from assms
  have "s' = update_model self (\<lambda>m. m\<lparr>imports_of := insert other (imports_of m)\<rparr>) s"
    by (simp add: add_import_def split: if_splits)
  then show ?thesis
    by (simp add: frame_update_model wf_update_model)
qed

lemma visitTokensSpec_frame:
  "frame_except {self} s (visitTokensSpec self defs s) \<and>
   (wf_state s \<longrightarrow> wf_state (visitTokensSpec self defs s))"
proof (induction defs arbitrary: s)
  case Nil
  then show ?case by (simp add: frame_except_refl)
next
  case (Cons tok toks)
  let ?s1 = "set_lexer_rule self (fst tok) (token_rule self (heap s ! self) tok) s"
  have "frame_except {self} s ?s1" by (rule frame_set_lexer_rule)
  moreover have "wf_state s \<longrightarrow> wf_state ?s1" by (simp add: wf_set_lexer_rule)
  ultimately show ?case using Cons.IH [of ?s1] by (auto intro: frame_except_trans)
qed

lemma MetaLoader_add_import_frame:
  assumes "good_cache c" and "MetaLoader_add_import e c self nm s = Some (Inr s')"
  shows "frame_except {self} s s' \<and> (wf_state s \<longrightarrow> wf_state s')"
proof (cases "in_memory (heap s ! self)")
  case True
  with assms(2) have "s' = log_all [(Error, ImportsNotAllowed)] s"
    by (simp add: MetaLoader_add_import_def)
  then show ?thesis by (simp add: frame_log_all wf_log_all)
next
  case False
  let ?q = "path_join e (dirname e (path (heap s ! self))) (nm @ ''.g4'')"
  from assms(2) False obtain m s1 where c: "c ?q s = Some (Inr (m, s1))"
    and a: "add_import self m s1 = Inr s'"
    by (auto simp: MetaLoader_add_import_def split: option.splits sum.splits)
  from assms(1) c have f1: "frame_except {} s s1" and w1: "wf_state s \<longrightarrow> wf_state s1"
    by (auto simp: good_cache_def)
  from f1 have "frame_except {self} s s1" by (rule frame_except_mono [rotated]) simp
  with add_import_frame [OF a] w1 show ?thesis by (auto intro: frame_except_trans)
qed

lemma MetaLoader_frame:
  shows "good_cache c \<Longrightarrow> MetaLoader_visit e c self t s = Some (Inr s') \<Longrightarrow>
           frame_except {self} s s' \<and> (wf_state s \<longrightarrow> wf_state s')"
    and "good_cache c \<Longrightarrow> MetaLoader_visitChildren e c self ts s = Some (Inr s') \<Longrightarrow>
           frame_except {self} s s' \<and> (wf_state s \<longrightarrow> wf_state s')"
proof (induction e c self t s and e c self ts s arbitrary: s' and s'
    rule: MetaLoader_visit_MetaLoader_visitChildren.induct)
  case (4 e c self nm v line s)
  show ?case
  proof (cases "nm = ''tokenVocab''")
    case True
    with "4.prems" have "MetaLoader_add_import e c self v s = Some (Inr s')" by simp
    with "4.prems"(1) show ?thesis by (rule MetaLoader_add_import_frame)
  next
    case False
    with "4.prems" show ?thesis by (simp add: frame_except_refl)
  qed
next
  case (5 e c self v line s)
  then have "MetaLoader_add_import e c self v s = Some (Inr s')" by simp
  with "5.prems"(1) show ?case by (rule MetaLoader_add_import_frame)
next
  case (6 e c self defs s)
  then have "s' = visitTokensSpec self defs s" by simp
  then show ?case using visitTokensSpec_frame [of self s defs] by simp
next
  case (10 e c self child children s)
  from "10.prems"(2) obtain s1 where a: "MetaLoader_visit e c self child s = Some (Inr s1)"
    and b: "MetaLoader_visitChildren e c self children s1 = Some (Inr s')"
    by (auto split: option.splits sum.splits)
  have 1: "frame_except {self} s s1 \<and> (wf_state s \<longrightarrow> wf_state s1)"
    using "10.IH"(1) "10.prems"(1) a by blast
  have 2: "frame_except {self} s1 s' \<and> (wf_state s1 \<longrightarrow> wf_state s')"
    using "10.IH"(2) "10.prems"(1) a b by blast
  from 1 2 show ?case by (blast intro: frame_except_trans)
qed (simp_all add: frame_except_refl)

lemma frame_fresh:
  assumes a: "frame_except {} s s1" and b: "frame_except {m} s1 s'" and m: "length (heap s) \<le> m"
  shows "frame_except {} s s'"
proof -
  have len: "length (heap s) \<le> length (heap s1)" "length (heap s1) \<le> length (heap s')"
    using a b by (simp_all add: frame_except_def)
  have "heap s' ! i = heap s ! i" if "i < length (heap s)" for i
  proof -
    from that len m have "i < length (heap s1)" "i \<notin> {m}" by simp_all
    with that a b show ?thesis by (simp add: frame_except_def)
  qed
  moreover have "in_memory (heap s' ! i) = in_memory (heap s ! i)" if "i < length (heap s)" for i
  proof -
    from that len have "i < length (heap s1)" by simp
    with that a b show ?thesis by (simp add: frame_except_def)
  qed
  moreover have "loaded s' p = Some x" if "loaded s p = Some x" for p x
    using that a b by (simp add: frame_except_def)
  ultimately show ?thesis using len by (simp add: frame_except_def)
qed

lemma visitLexerRuleSpec_frame:
  assumes "visitLexerRuleSpec e self nm docs frag block line s = Inr s'"
  shows "frame_except {self} s s' \<and> (wf_state s \<longrightarrow> wf_state s')"
proof -
  let ?m = "heap s ! self"
  from assms obtain doc_info reported
    where d: "load_docs e (path ?m) (offset ?m) docs = Inr (doc_info, reported)"
    by (auto simp: visitLexerRuleSpec_def Let_def split: sum.splits)
  let ?r = "make_lexer_rule self ?m nm frag line (LexerRuleLoader_visit_body self block) doc_info"
  let ?s1 = "set_lexer_rule self (rule_name ?r) ?r (log_all reported s)"
  have f1: "frame_except {self} s ?s1"
    using frame_log_all frame_set_lexer_rule by (rule frame_except_trans)
  have w1: "wf_state s \<longrightarrow> wf_state ?s1"
    by (simp add: wf_set_lexer_rule wf_log_all)
  show ?thesis
  proof (cases "LexerRuleLoader_visit_body self block")
    case (Literal literal)
    with assms d have "s' = set_lexer_rule self literal ?r ?s1"
      by (simp add: visitLexerRuleSpec_def Let_def)
    then show ?thesis
      using f1 w1 frame_set_lexer_rule [of self ?s1 literal ?r]
      by (auto intro: frame_except_trans wf_set_lexer_rule)
  qed (use assms d f1 w1 in \<open>simp_all add: visitLexerRuleSpec_def Let_def\<close>)
qed

lemma LexerRuleLoader_frame:
  shows "LexerRuleLoader_visit e self t s = Inr s' \<Longrightarrow>
           frame_except {self} s s' \<and> (wf_state s \<longrightarrow> wf_state s')"
    and "LexerRuleLoader_visitChildren e self ts s = Inr s' \<Longrightarrow>
           frame_except {self} s s' \<and> (wf_state s \<longrightarrow> wf_state s')"
proof (induction e self t s and e self ts s arbitrary: s' and s'
    rule: LexerRuleLoader_visit_LexerRuleLoader_visitChildren.induct)
  case (3 e self nm docs frag block line s)
  then have "visitLexerRuleSpec e self nm docs frag block line s = Inr s'" by simp
  then show ?case by (rule visitLexerRuleSpec_frame)
next
  case (10 e self child children s)
  from "10.prems" obtain s1 where a: "LexerRuleLoader_visit e self child s = Inr s1"
    and b: "LexerRuleLoader_visitChildren e self children s1 = Inr s'"
    by (auto split: sum.splits)
  have 1: "frame_except {self} s s1 \<and> (wf_state s \<longrightarrow> wf_state s1)"
    using "10.IH"(1) a by blast
  have 2: "frame_except {self} s1 s' \<and> (wf_state s1 \<longrightarrow> wf_state s')"
    using "10.IH"(2) a b by blast
  from 1 2 show ?case by (blast intro: frame_except_trans)
qed (simp_all add: frame_except_refl)

lemma visitParserRuleSpec_frame:
  assumes "visitParserRuleSpec e self nm docs block line s = Inr s'"
  shows "frame_except {self} s s' \<and> (wf_state s \<longrightarrow> wf_state s')"
proof -
  let ?m = "heap s ! self"
  from assms obtain doc_info reported
    where d: "load_docs e (path ?m) (offset ?m) docs = Inr (doc_info, reported)"
    by (auto simp: visitParserRuleSpec_def Let_def split: sum.splits)
  let ?r = "make_parser_rule self ?m nm line (ParserRuleLoader_visit_body self block) doc_info"
  have s': "s' = set_parser_rule self (rule_name ?r) ?r (log_all reported s)"
    using assms d by (simp add: visitParserRuleSpec_def Let_def)
  have "frame_except {self} s (set_parser_rule self (rule_name ?r) ?r (log_all reported s))"
    using frame_log_all frame_set_parser_rule by (rule frame_except_trans)
  then show ?thesis
    unfolding s' by (simp add: wf_set_parser_rule wf_log_all)
qed

lemma ParserRuleLoader_frame:
  shows "ParserRuleLoader_visit e self t s = Inr s' \<Longrightarrow>
           frame_except {self} s s' \<and> (wf_state s \<longrightarrow> wf_state s')"
    and "ParserRuleLoader_visitChildren e self ts s = Inr s' \<Longrightarrow>
           frame_except {self} s s' \<and> (wf_state s \<longrightarrow> wf_state s')"
proof (induction e self t s and e self ts s arbitrary: s' and s'
    rule: ParserRuleLoader_visit_ParserRuleLoader_visitChildren.induct)
  case (1 e self nm docs block line s)
  then have "visitParserRuleSpec e self nm docs block line s = Inr s'" by simp
  then show ?case by (rule visitParserRuleSpec_frame)
next
  case (10 e self child children s)
  from "10.prems" obtain s1 where a: "ParserRuleLoader_visit e self child s = Inr s1"
    and b: "ParserRuleLoader_visitChildren e self children s1 = Inr s'"
    by (auto split: sum.splits)
  have 1: "frame_except {self} s s1 \<and> (wf_state s \<longrightarrow> wf_state s1)"
    using "10.IH"(1) a by blast
  have 2: "frame_except {self} s1 s' \<and> (wf_state s1 \<longrightarrow> wf_state s')"
    using "10.IH"(2) a b by blast
  from 1 2 show ?case by (blast intro: frame_except_trans)
qed (simp_all add: frame_except_refl)

text \<open>
  \<^verbatim>\<open>_do_load\<close> with a good cache: the model it returns is the one new object it makes
  itself, with the \<^verbatim>\<open>in_memory\<close> flag it was given, and the objects that were there
  before are unchanged.
\<close>

lemma do_load_frame:
  assumes c: "good_cache c" and d: "do_load e c txt p off in_mem s = Some (Inr (m, s'))"
  shows "m = length (heap s) \<and> m < length (heap s') \<and> in_memory (heap s' ! m) = in_mem \<and>
         frame_except {} s s' \<and> (wf_state s \<longrightarrow> wf_state s')"
proof -
  let ?parsed = "grammarSpec e txt"
  let ?s1 = "s\<lparr>logged := logged s @ map (syntaxError p off) (listener_calls ?parsed),
               parses := Suc (parses s),
               heap := heap s @ [ModelImpl p off in_mem]\<rparr>"
  let ?m = "length (heap s)"
  have h1: "heap ?s1 = heap s @ [ModelImpl p off in_mem]" and l1: "loaded ?s1 = loaded s"
    by simp_all
  have f1: "frame_except {} s ?s1"
    by (simp add: frame_except_def nth_append)
  have w1: "wf_state s \<longrightarrow> wf_state ?s1"
  proof
    assume wf: "wf_state s"
    show "wf_state ?s1"
      unfolding wf_state_def
    proof (intro allI impI)
      fix q x
      assume "loaded ?s1 q = Some x"
      with wf have "x < length (heap s)" "\<not> in_memory (heap s ! x)"
        by (simp_all add: wf_state_def)
      then show "x < length (heap ?s1) \<and> \<not> in_memory (heap ?s1 ! x)"
        by (simp add: nth_append)
    qed
  qed
  have m1: "?m < length (heap ?s1)" "in_memory (heap ?s1 ! ?m) = in_mem"
    by (simp_all add: in_memory_ModelImpl)
  show ?thesis
  proof (cases "number_of_syntax_errors ?parsed \<noteq> 0")
    case True
    with d have "m = ?m" "s' = ?s1" by (simp_all add: do_load_syntax_error)
    with f1 w1 m1 show ?thesis by simp
  next
    case False
    have "\<exists>s2 s3. MetaLoader_visit e c ?m (tree ?parsed) ?s1 = Some (Inr s2) \<and>
            LexerRuleLoader_visit e ?m (tree ?parsed) s2 = Inr s3 \<and>
            ParserRuleLoader_visit e ?m (tree ?parsed) s3 = Inr s' \<and> m = ?m"
      using d False
      by (simp add: do_load_def Let_def new_model_def log_all_def
          split: option.splits sum.splits)
    then obtain s2 s3
      where a2: "MetaLoader_visit e c ?m (tree ?parsed) ?s1 = Some (Inr s2)"
        and a3: "LexerRuleLoader_visit e ?m (tree ?parsed) s2 = Inr s3"
        and a4: "ParserRuleLoader_visit e ?m (tree ?parsed) s3 = Inr s'"
        and m: "m = ?m"
      by blast
    have 2: "frame_except {?m} ?s1 s2 \<and> (wf_state ?s1 \<longrightarrow> wf_state s2)"
      using c a2 by (rule MetaLoader_frame(1))
    have 3: "frame_except {?m} s2 s3 \<and> (wf_state s2 \<longrightarrow> wf_state s3)"
      using a3 by (rule LexerRuleLoader_frame(1))
    have 4: "frame_except {?m} s3 s' \<and> (wf_state s3 \<longrightarrow> wf_state s')"
      using a4 by (rule ParserRuleLoader_frame(1))
    from 2 3 4 have f: "frame_except {?m} ?s1 s'"
      by (blast intro: frame_except_trans)
    have len: "length (heap ?s1) \<le> length (heap s')"
      using f by (simp add: frame_except_def)
    have im: "in_memory (heap s' ! ?m) = in_memory (heap ?s1 ! ?m)"
      using f m1(1) unfolding frame_except_def by blast
    have fr: "frame_except {} s s'"
      using f1 f by (rule frame_fresh) simp
    have wf: "wf_state s \<longrightarrow> wf_state s'"
      using w1 2 3 4 by blast
    from len m1(1) have "?m < length (heap s')" by simp
    with m im m1(2) fr wf show ?thesis by simp
  qed
qed

lemma from_file_frame:
  "from_file fuel e a s = Some (Inr (m, s')) \<Longrightarrow>
   frame_except {} s s' \<and> loaded s' (normalized e a) = Some m \<and>
   (wf_state s \<longrightarrow> wf_state s' \<and> m < length (heap s') \<and> \<not> in_memory (heap s' ! m))"
proof (induction fuel arbitrary: a s m s')
  case 0
  then show ?case by (simp add: from_file.simps)
next
  case (Suc fuel)
  let ?n = "normalized e a"
  have good: "good_cache (\<lambda>q. from_file fuel e (Path q))"
    unfolding good_cache_def using Suc.IH by blast
  show ?case
  proof (cases "loaded s ?n")
    case (Some x)
    with Suc.prems have "m = x" "s' = s" by (simp_all add: from_file_hit)
    with Some show ?thesis by (auto simp: frame_except_refl wf_state_def)
  next
    case None
    show ?thesis
    proof (cases "file_at e ?n")
      case Missing
      let ?s' = "s\<lparr>logged := logged s @ [(Error, FileNotFound ?n)],
                   heap := heap s @ [ModelImpl ?n (snd (path_and_offset a)) False],
                   loaded := (loaded s)(?n \<mapsto> length (heap s))\<rparr>"
      from Suc.prems None Missing have r: "m = length (heap s)" "s' = ?s'"
        by (auto simp: from_file_missing)
      have "frame_except {} s ?s'"
        using None by (auto simp: frame_except_def nth_append)
      moreover have "wf_state ?s'" if "wf_state s"
        unfolding wf_state_def
      proof (intro allI impI)
        fix q x
        assume l: "loaded ?s' q = Some x"
        show "x < length (heap ?s') \<and> \<not> in_memory (heap ?s' ! x)"
        proof (cases "q = ?n")
          case True
          with l have "x = length (heap s)" by simp
          then show ?thesis by (simp add: in_memory_ModelImpl)
        next
          case False
          with l that have "x < length (heap s)" "\<not> in_memory (heap s ! x)"
            by (simp_all add: wf_state_def)
          then show ?thesis by (simp add: nth_append)
        qed
      qed
      ultimately show ?thesis using r by (simp add: in_memory_ModelImpl)
    next
      case (Unreadable err)
      with Suc.prems None show ?thesis by (simp add: from_file_unreadable)
    next
      case (Content contents)
      from Suc.prems None Content obtain s1
        where d: "do_load e (\<lambda>q. from_file fuel e (Path q)) contents ?n (snd (path_and_offset a))
                    False s = Some (Inr (m, s1))"
          and s': "s' = s1\<lparr>loaded := (loaded s1)(?n \<mapsto> m)\<rparr>"
        by (auto simp: from_file_content split: option.splits sum.splits)
      from do_load_frame [OF good d]
      have m: "m < length (heap s1)" "\<not> in_memory (heap s1 ! m)"
        and f: "frame_except {} s s1" and w: "wf_state s \<longrightarrow> wf_state s1"
        by blast+
      have "frame_except {} s s'"
        using f None unfolding s' by (auto simp: frame_except_def)
      moreover have "wf_state s'" if "wf_state s1"
        unfolding wf_state_def
      proof (intro allI impI)
        fix q x
        assume l: "loaded s' q = Some x"
        show "x < length (heap s') \<and> \<not> in_memory (heap s' ! x)"
        proof (cases "q = ?n")
          case True
          with l m show ?thesis by (simp add: s')
        next
          case False
          with l that show ?thesis by (simp add: s' wf_state_def)
        qed
      qed
      ultimately show ?thesis using m w by (auto simp: s')
    qed
  qed
qed

lemma from_file_good_cache: "good_cache (\<lambda>q. from_file fuel e (Path q))"
  unfolding good_cache_def using from_file_frame by blast

lemma from_text_frame:
  assumes "from_text fuel e txt a s = Some (Inr (m, s'))"
  shows "m = length (heap s) \<and> m < length (heap s') \<and> in_memory (heap s' ! m) \<and>
         frame_except {} s s' \<and> (wf_state s \<longrightarrow> wf_state s')"
proof -
  from assms
  have "do_load e (\<lambda>q. from_file fuel e (Path q)) txt (fst (path_and_offset a))
          (snd (path_and_offset a)) True s = Some (Inr (m, s'))"
    by (simp add: from_text_def split: prod.splits)
  from do_load_frame [OF from_file_good_cache this] show ?thesis by auto
qed

lemma later_frame: "later s s' \<Longrightarrow> frame_except {} s s' \<and> (wf_state s \<longrightarrow> wf_state s')"
proof (induction rule: later.induct)
  case (now s)
  then show ?case by (simp add: frame_except_refl)
next
  case (after_from_file s s' fuel e a m s'')
  from from_file_frame [OF after_from_file.hyps(2)] after_from_file.IH
  show ?case by (blast intro: frame_except_trans)
next
  case (after_from_text s s' fuel e contents a m s'')
  from from_text_frame [OF after_from_text.hyps(2)] after_from_text.IH
  show ?case by (blast intro: frame_except_trans)
qed

lemma wf_initial_state: "wf_state initial_state"
  by (simp add: wf_state_def initial_state_def)

text \<open>Every state that a run of the cache reaches from the initial state is well formed.\<close>

lemma wf_later_initial_state: "later initial_state s \<Longrightarrow> wf_state s"
  using later_frame wf_initial_state by blast

text \<open>
  Two top-level calls of \<^verbatim>\<open>from_file\<close> with top-level calls that return between
  them: the second returns the model of the first and leaves the state as it is.
\<close>

lemma from_file_again:
  assumes "from_file fuel e a s = Some (Inr (m, s1))"
    and "later s1 s2"
    and "normalized e' a' = normalized e a"
  shows "from_file (Suc fuel') e' a' s2 = Some (Inr (m, s2))"
proof -
  from assms(1) have "loaded s1 (normalized e a) = Some m"
    using from_file_frame by blast
  moreover from assms(2) have "frame_except {} s1 s2"
    using later_frame by blast
  ultimately have "loaded s2 (normalized e' a') = Some m"
    by (simp add: frame_except_def assms(3))
  then show ?thesis by (rule from_file_hit)
qed

section \<open>The result of a call, in the examples\<close>

lemma case_outcomeE:
  assumes "case r of Some (Inr (m, s)) \<Rightarrow> P m s | other \<Rightarrow> False"
  obtains m s where "r = Some (Inr (m, s))" and "P m s"
proof (cases r)
  case None
  with assms show ?thesis by simp
next
  case (Some x)
  show ?thesis
  proof (cases x)
    case (Inl a)
    with Some assms show ?thesis by simp
  next
    case (Inr b)
    with Some assms that show ?thesis by (cases b) simp
  qed
qed

section \<open>Imports\<close>

lemma keeps_imports_refl: "keeps_imports self s s"
  by (simp add: keeps_imports_def)

lemma keeps_imports_trans:
  "keeps_imports self s s1 \<Longrightarrow> keeps_imports self s1 s2 \<Longrightarrow> keeps_imports self s s2"
  by (simp add: keeps_imports_def)

lemma keeps_imports_log_all: "keeps_imports self s (log_all ds s)"
  by (simp add: keeps_imports_def log_all_def)

lemma keeps_imports_update_model:
  assumes i: "\<And>m. imports_of (f m) = imports_of m" and f: "\<And>m. in_memory (f m) = in_memory m"
  shows "keeps_imports self s (update_model x f s)"
proof (cases "x = self \<and> self < length (heap s)")
  case True
  then show ?thesis by (simp add: keeps_imports_def update_model_def i f)
next
  case False
  then have "(heap s)[x := f (heap s ! x)] ! self = heap s ! self"
    by (cases "x = self") (simp_all add: list_update_beyond)
  then show ?thesis by (simp add: keeps_imports_def update_model_def)
qed

lemma keeps_imports_set_lexer_rule: "keeps_imports self s (set_lexer_rule x nm r s)"
  unfolding set_lexer_rule_def by (rule keeps_imports_update_model) simp_all

lemma keeps_imports_set_parser_rule: "keeps_imports self s (set_parser_rule x nm r s)"
  unfolding set_parser_rule_def by (rule keeps_imports_update_model) simp_all

lemma logged_set_lexer_rule: "logged (set_lexer_rule x nm r s) = logged s"
  by (simp add: set_lexer_rule_def update_model_def)

lemma visitTokensSpec_keeps:
  "keeps_imports self s (visitTokensSpec x defs s) \<and> logged (visitTokensSpec x defs s) = logged s"
proof (induction defs arbitrary: s)
  case Nil
  then show ?case by (simp add: keeps_imports_refl)
next
  case (Cons tok toks)
  let ?s1 = "set_lexer_rule x (fst tok) (token_rule x (heap s ! x) tok) s"
  have "keeps_imports self s ?s1" by (rule keeps_imports_set_lexer_rule)
  moreover have "logged ?s1 = logged s" by (rule logged_set_lexer_rule)
  ultimately show ?case using Cons.IH [of ?s1] by (auto intro: keeps_imports_trans)
qed



lemma visitLexerRuleSpec_keeps:
  assumes "visitLexerRuleSpec e x nm docs frag block line s = Inr s'"
  shows "keeps_imports self s s'"
proof -
  let ?m = "heap s ! x"
  from assms obtain doc_info reported
    where d: "load_docs e (path ?m) (offset ?m) docs = Inr (doc_info, reported)"
    by (auto simp: visitLexerRuleSpec_def Let_def split: sum.splits)
  let ?r = "make_lexer_rule x ?m nm frag line (LexerRuleLoader_visit_body x block) doc_info"
  let ?s1 = "set_lexer_rule x (rule_name ?r) ?r (log_all reported s)"
  have k1: "keeps_imports self s ?s1"
    using keeps_imports_log_all keeps_imports_set_lexer_rule by (rule keeps_imports_trans)
  show ?thesis
  proof (cases "LexerRuleLoader_visit_body x block")
    case (Literal literal)
    with assms d have "s' = set_lexer_rule x literal ?r ?s1"
      by (simp add: visitLexerRuleSpec_def Let_def)
    then show ?thesis
      using k1 keeps_imports_set_lexer_rule [of self ?s1 x literal ?r]
      by (auto intro: keeps_imports_trans)
  qed (use assms d k1 in \<open>simp_all add: visitLexerRuleSpec_def Let_def\<close>)
qed

lemma LexerRuleLoader_keeps:
  shows "LexerRuleLoader_visit e x t s = Inr s' \<Longrightarrow> keeps_imports self s s'"
    and "LexerRuleLoader_visitChildren e x ts s = Inr s' \<Longrightarrow> keeps_imports self s s'"
proof (induction e x t s and e x ts s arbitrary: s' and s'
    rule: LexerRuleLoader_visit_LexerRuleLoader_visitChildren.induct)
  case (3 e x nm docs frag block line s)
  then have "visitLexerRuleSpec e x nm docs frag block line s = Inr s'" by simp
  then show ?case by (rule visitLexerRuleSpec_keeps)
next
  case (10 e x child children s)
  from "10.prems" obtain s1 where a: "LexerRuleLoader_visit e x child s = Inr s1"
    and b: "LexerRuleLoader_visitChildren e x children s1 = Inr s'"
    by (auto split: sum.splits)
  have "keeps_imports self s s1" using "10.IH"(1) a by blast
  moreover have "keeps_imports self s1 s'" using "10.IH"(2) a b by blast
  ultimately show ?case by (rule keeps_imports_trans)
qed (simp_all add: keeps_imports_refl)

lemma visitParserRuleSpec_keeps:
  assumes "visitParserRuleSpec e x nm docs block line s = Inr s'"
  shows "keeps_imports self s s'"
proof -
  let ?m = "heap s ! x"
  from assms obtain doc_info reported
    where d: "load_docs e (path ?m) (offset ?m) docs = Inr (doc_info, reported)"
    by (auto simp: visitParserRuleSpec_def Let_def split: sum.splits)
  let ?r = "make_parser_rule x ?m nm line (ParserRuleLoader_visit_body x block) doc_info"
  have s': "s' = set_parser_rule x (rule_name ?r) ?r (log_all reported s)"
    using assms d by (simp add: visitParserRuleSpec_def Let_def)
  show ?thesis
    unfolding s'
    using keeps_imports_log_all keeps_imports_set_parser_rule by (rule keeps_imports_trans)
qed

lemma ParserRuleLoader_keeps:
  shows "ParserRuleLoader_visit e x t s = Inr s' \<Longrightarrow> keeps_imports self s s'"
    and "ParserRuleLoader_visitChildren e x ts s = Inr s' \<Longrightarrow> keeps_imports self s s'"
proof (induction e x t s and e x ts s arbitrary: s' and s'
    rule: ParserRuleLoader_visit_ParserRuleLoader_visitChildren.induct)
  case (1 e x nm docs block line s)
  then have "visitParserRuleSpec e x nm docs block line s = Inr s'" by simp
  then show ?case by (rule visitParserRuleSpec_keeps)
next
  case (10 e x child children s)
  from "10.prems" obtain s1 where a: "ParserRuleLoader_visit e x child s = Inr s1"
    and b: "ParserRuleLoader_visitChildren e x children s1 = Inr s'"
    by (auto split: sum.splits)
  have "keeps_imports self s s1" using "10.IH"(1) a by blast
  moreover have "keeps_imports self s1 s'" using "10.IH"(2) a b by blast
  ultimately show ?case by (rule keeps_imports_trans)
qed (simp_all add: keeps_imports_refl)





section \<open>Memoization\<close>

lemma loaded_do_load_start: "loaded (do_load_start e txt p off in_mem s) = loaded s"
  by (simp add: do_load_start_def Let_def new_model_def log_all_def)

lemma heap_do_load_start:
  "heap (do_load_start e txt p off in_mem s) = heap s @ [ModelImpl p off in_mem]"
  by (simp add: do_load_start_def Let_def new_model_def log_all_def)

lemma file_model_do_load_start:
  "file_model (length (heap s)) p (do_load_start e txt p off False s)"
  by (simp add: file_model_def heap_do_load_start ModelImpl_def)

lemma do_load_returns:
  assumes d: "do_load e c txt p off in_mem s = Some (Inr (m, s'))"
  shows "m = length (heap s) \<and>
         (if number_of_syntax_errors (grammarSpec e txt) \<noteq> 0
          then loaded s' = loaded s
          else (\<exists>s2. MetaLoader_visit e c (length (heap s)) (tree (grammarSpec e txt))
                       (do_load_start e txt p off in_mem s) = Some (Inr s2) \<and>
                     loaded s' = loaded s2))"
proof (cases "number_of_syntax_errors (grammarSpec e txt) \<noteq> 0")
  case True
  with d show ?thesis by (auto simp: do_load_syntax_error)
next
  case False
  let ?parsed = "grammarSpec e txt"
  let ?m = "length (heap s)"
  have "\<exists>s2 s3. MetaLoader_visit e c ?m (tree ?parsed) (do_load_start e txt p off in_mem s)
                  = Some (Inr s2) \<and>
            LexerRuleLoader_visit e ?m (tree ?parsed) s2 = Inr s3 \<and>
            ParserRuleLoader_visit e ?m (tree ?parsed) s3 = Inr s' \<and> m = ?m"
    using d False
    by (simp add: do_load_def do_load_start_def Let_def new_model_def log_all_def
        split: option.splits sum.splits)
  then obtain s2 s3
    where a2: "MetaLoader_visit e c ?m (tree ?parsed) (do_load_start e txt p off in_mem s)
                 = Some (Inr s2)"
      and a3: "LexerRuleLoader_visit e ?m (tree ?parsed) s2 = Inr s3"
      and a4: "ParserRuleLoader_visit e ?m (tree ?parsed) s3 = Inr s'"
      and m: "m = ?m"
    by blast
  from LexerRuleLoader_keeps(1) [OF a3, of 0] ParserRuleLoader_keeps(1) [OF a4, of 0]
  have "loaded s' = loaded s2" by (simp add: keeps_imports_def)
  with a2 m False show ?thesis by auto
qed

lemma file_model_frame:
  assumes "frame_except A s s'" and "self \<notin> A" and "file_model self n s"
  shows "file_model self n s'"
proof -
  from assms(3) have l: "self < length (heap s)" by (simp add: file_model_def)
  with assms(1,2) have "heap s' ! self = heap s ! self" "self < length (heap s')"
    by (auto simp: frame_except_def)
  with assms(3) show ?thesis by (simp add: file_model_def)
qed

lemma file_model_update_model:
  assumes f: "\<And>m. in_memory (f m) = in_memory m" and p: "\<And>m. path (f m) = path m"
    and fm: "file_model self n s"
  shows "file_model self n (update_model x f s)"
proof (cases "x = self")
  case True
  with fm show ?thesis by (simp add: file_model_def update_model_def f p)
next
  case False
  with fm show ?thesis by (simp add: file_model_def update_model_def)
qed

lemma file_model_visitTokensSpec:
  "file_model self n s \<Longrightarrow> file_model self n (visitTokensSpec x defs s)"
proof (induction defs arbitrary: s)
  case Nil
  then show ?case by simp
next
  case (Cons tok toks)
  have "file_model self n (set_lexer_rule x (fst tok) (token_rule x (heap s ! x) tok) s)"
    unfolding set_lexer_rule_def using Cons.prems by (intro file_model_update_model) simp_all
  then show ?case using Cons.IH by simp
qed

lemma loaded_visitTokensSpec: "loaded (visitTokensSpec x defs s) = loaded s"
  using visitTokensSpec_keeps [of 0 s x defs] by (simp add: keeps_imports_def)

lemma add_import_file_model:
  assumes "add_import self other s = Inr s'" and "file_model self n s"
  shows "file_model self n s' \<and> loaded s' = loaded s"
proof -
  from assms(1)
  have s': "s' = update_model self (\<lambda>m. m\<lparr>imports_of := insert other (imports_of m)\<rparr>) s"
    by (simp add: add_import_def split: if_splits)
  have "file_model self n s'"
    unfolding s' using assms(2) by (intro file_model_update_model) simp_all
  moreover have "loaded s' = loaded s" by (simp add: s' update_model_def)
  ultimately show ?thesis by simp
qed

text \<open>
  A rule for the Meta Pass of a file-backed model whose path is \<open>n\<close>: a property of the
  memo that every returning call of the cache keeps is kept by the pass, and what holds
  of every returning call holds of every import declaration of the tree.
\<close>

lemma MetaLoader_add_import_rule:
  assumes good: "good_cache c"
    and inv: "\<And>s s'. loaded s' = loaded s \<Longrightarrow> I s \<Longrightarrow> I s'"
    and call: "\<And>s1 m s2. I s1 \<Longrightarrow>
                 c (path_join e (dirname e n) (v @ ''.g4'')) s1 = Some (Inr (m, s2)) \<Longrightarrow>
                 I s2 \<and> G v"
    and r: "MetaLoader_add_import e c self v s = Some (Inr s')"
    and i: "I s" and fm: "file_model self n s"
  shows "I s' \<and> file_model self n s' \<and> G v"
proof -
  let ?q = "path_join e (dirname e n) (v @ ''.g4'')"
  from fm have nim: "\<not> in_memory (heap s ! self)" and p: "path (heap s ! self) = n"
    by (simp_all add: file_model_def)
  from r nim p obtain m s1 where c: "c ?q s = Some (Inr (m, s1))"
    and a: "add_import self m s1 = Inr s'"
    by (auto simp: MetaLoader_add_import_def split: option.splits sum.splits)
  from call [OF i c] have i1: "I s1" and g: "G v" by simp_all
  from good c have fr: "frame_except {} s s1" by (auto simp: good_cache_def)
  have fm1: "file_model self n s1" by (rule file_model_frame [OF fr _ fm]) simp
  from add_import_file_model [OF a fm1] have "file_model self n s'" "loaded s' = loaded s1"
    by simp_all
  with inv i1 g show ?thesis by blast
qed

lemma MetaLoader_pass_rule:
  assumes inv: "\<And>s s'. loaded s' = loaded s \<Longrightarrow> I s \<Longrightarrow> I s'"
  shows "MetaLoader_visit e c self t s = Some (Inr s') \<Longrightarrow> good_cache c \<Longrightarrow>
           (\<forall>v\<in>V. \<forall>s1 m s2. I s1 \<longrightarrow>
              c (path_join e (dirname e n) (v @ ''.g4'')) s1 = Some (Inr (m, s2)) \<longrightarrow>
              I s2 \<and> G v) \<Longrightarrow>
           set (import_declarations t) \<subseteq> V \<Longrightarrow> I s \<Longrightarrow> file_model self n s \<Longrightarrow>
           I s' \<and> file_model self n s' \<and> (\<forall>v\<in>set (import_declarations t). G v)"
    and "MetaLoader_visitChildren e c self ts s = Some (Inr s') \<Longrightarrow> good_cache c \<Longrightarrow>
           (\<forall>v\<in>V. \<forall>s1 m s2. I s1 \<longrightarrow>
              c (path_join e (dirname e n) (v @ ''.g4'')) s1 = Some (Inr (m, s2)) \<longrightarrow>
              I s2 \<and> G v) \<Longrightarrow>
           set (import_declarations_of ts) \<subseteq> V \<Longrightarrow> I s \<Longrightarrow> file_model self n s \<Longrightarrow>
           I s' \<and> file_model self n s' \<and> (\<forall>v\<in>set (import_declarations_of ts). G v)"
proof (induction e c self t s and e c self ts s arbitrary: s' and s'
    rule: MetaLoader_visit_MetaLoader_visitChildren.induct)
  case (4 e c self nm v line s)
  show ?case
  proof (cases "nm = ''tokenVocab''")
    case True
    with "4.prems" have r: "MetaLoader_add_import e c self v s = Some (Inr s')"
      and v: "v \<in> V" by simp_all
    from "4.prems"(3) v
    have call: "\<And>s1 m s2. I s1 \<Longrightarrow>
                  c (path_join e (dirname e n) (v @ ''.g4'')) s1 = Some (Inr (m, s2)) \<Longrightarrow>
                  I s2 \<and> G v"
      by blast
    have "I s' \<and> file_model self n s' \<and> G v"
      using "4.prems"(2) inv call r "4.prems"(5,6)
      by (rule MetaLoader_add_import_rule)
    with True show ?thesis by simp
  next
    case False
    with "4.prems" show ?thesis by simp
  qed
next
  case (5 e c self v line s)
  then have r: "MetaLoader_add_import e c self v s = Some (Inr s')"
    and v: "v \<in> V" by simp_all
  from "5.prems"(3) v
  have call: "\<And>s1 m s2. I s1 \<Longrightarrow>
                c (path_join e (dirname e n) (v @ ''.g4'')) s1 = Some (Inr (m, s2)) \<Longrightarrow>
                I s2 \<and> G v"
    by blast
  have "I s' \<and> file_model self n s' \<and> G v"
    using "5.prems"(2) inv call r "5.prems"(5,6)
    by (rule MetaLoader_add_import_rule)
  then show ?case by simp
next
  case (6 e c self defs s)
  then have s': "s' = visitTokensSpec self defs s" by simp
  show ?case
    unfolding s' using "6.prems"(5,6) inv [OF loaded_visitTokensSpec]
    by (simp add: file_model_visitTokensSpec)
next
  case (10 e c self child children s)
  from "10.prems"(1) obtain s1 where a: "MetaLoader_visit e c self child s = Some (Inr s1)"
    and b: "MetaLoader_visitChildren e c self children s1 = Some (Inr s')"
    by (auto split: option.splits sum.splits)
  from "10.prems"(4) have v1: "set (import_declarations child) \<subseteq> V"
    and v2: "set (import_declarations_of children) \<subseteq> V" by simp_all
  have 1: "I s1 \<and> file_model self n s1 \<and> (\<forall>v\<in>set (import_declarations child). G v)"
    using "10.IH"(1) [OF a "10.prems"(2,3) v1 "10.prems"(5,6)] .
  then have i1: "I s1" and f1: "file_model self n s1" by simp_all
  have 2: "I s' \<and> file_model self n s' \<and> (\<forall>v\<in>set (import_declarations_of children). G v)"
    using "10.IH"(2) [OF a refl b "10.prems"(2,3) v2 i1 f1] .
  from 1 2 show ?case by auto
qed simp_all

lemma import_targets_content:
  assumes "file_at e n = Content txt" and "number_of_syntax_errors (grammarSpec e txt) = 0"
  shows "import_targets e n =
           (\<lambda>v. normalized e (Path (path_join e (dirname e n) (v @ ''.g4''))))
             ` set (import_declarations (tree (grammarSpec e txt)))"
  using assms by (simp add: import_targets_def)

lemma import_targets_empty:
  "file_at e n = Missing \<Longrightarrow> import_targets e n = {}"
  "file_at e n = Unreadable err \<Longrightarrow> import_targets e n = {}"
  "file_at e n = Content txt \<Longrightarrow> number_of_syntax_errors (grammarSpec e txt) \<noteq> 0 \<Longrightarrow>
     import_targets e n = {}"
  by (simp_all add: import_targets_def)

lemma trapped_has_targets: "trapped e B \<Longrightarrow> import_targets e n = {} \<Longrightarrow> n \<notin> B"
  by (auto simp: trapped_def)

text \<open>
  A set of paths each of which imports a path of the set is never entered by a call that
  returns: no call on such a path returns, and no such path is memoized by a call that
  returns, as long as none of them is memoized at the start.
\<close>

lemma from_file_never_trapped:
  assumes tr: "trapped e B"
  shows "from_file fuel e a s = Some (Inr (m, s')) \<Longrightarrow> dom (loaded s) \<inter> B = {} \<Longrightarrow>
         normalized e a \<notin> B \<and> dom (loaded s') \<inter> B = {}"
proof (induction fuel arbitrary: a s m s')
  case 0
  then show ?case by (simp add: from_file.simps)
next
  case (Suc fuel)
  let ?n = "normalized e a"
  let ?c = "\<lambda>q. from_file fuel e (Path q)"
  show ?case
  proof (cases "loaded s ?n")
    case (Some x)
    with Suc.prems(1) have "s' = s" by (simp add: from_file_hit)
    moreover from Some Suc.prems(2) have "?n \<notin> B" by auto
    ultimately show ?thesis using Suc.prems(2) by simp
  next
    case None
    show ?thesis
    proof (cases "file_at e ?n")
      case Missing
      with Suc.prems(1) None have "loaded s' = (loaded s)(?n \<mapsto> m)"
        by (auto simp: from_file_missing)
      then have "dom (loaded s') = insert ?n (dom (loaded s))" by simp
      moreover from Missing tr have "?n \<notin> B"
        by (simp add: trapped_has_targets import_targets_empty)
      ultimately show ?thesis using Suc.prems(2) by simp
    next
      case (Unreadable err)
      with Suc.prems(1) None show ?thesis by (simp add: from_file_unreadable)
    next
      case (Content contents)
      from Suc.prems(1) None Content obtain s1
        where d: "do_load e ?c contents ?n (snd (path_and_offset a)) False s
                    = Some (Inr (m, s1))"
          and s': "s' = s1\<lparr>loaded := (loaded s1)(?n \<mapsto> m)\<rparr>"
        by (auto simp: from_file_content split: option.splits sum.splits)
      have "?n \<notin> B \<and> dom (loaded s1) \<inter> B = {}"
      proof (cases "number_of_syntax_errors (grammarSpec e contents) \<noteq> 0")
        case True
        with do_load_returns [OF d] have "loaded s1 = loaded s" by simp
        moreover from True Content tr have "?n \<notin> B"
          by (simp add: trapped_has_targets import_targets_empty)
        ultimately show ?thesis using Suc.prems(2) by simp
      next
        case False
        let ?start = "do_load_start e contents ?n (snd (path_and_offset a)) False s"
        from do_load_returns [OF d] False obtain s2
          where v: "MetaLoader_visit e ?c (length (heap s)) (tree (grammarSpec e contents)) ?start
                      = Some (Inr s2)"
            and l: "loaded s1 = loaded s2"
          by auto
        have calls: "\<forall>v\<in>UNIV. \<forall>sa x sb. dom (loaded sa) \<inter> B = {} \<longrightarrow>
                 ?c (path_join e (dirname e ?n) (v @ ''.g4'')) sa = Some (Inr (x, sb)) \<longrightarrow>
                 dom (loaded sb) \<inter> B = {} \<and>
                 normalized e (Path (path_join e (dirname e ?n) (v @ ''.g4''))) \<notin> B"
          using Suc.IH by blast
        have "dom (loaded s2) \<inter> B = {} \<and>
              file_model (length (heap s)) ?n s2 \<and>
              (\<forall>v\<in>set (import_declarations (tree (grammarSpec e contents))).
                 normalized e (Path (path_join e (dirname e ?n) (v @ ''.g4''))) \<notin> B)"
          by (rule MetaLoader_pass_rule(1)
                [where I = "\<lambda>s. dom (loaded s) \<inter> B = {}" and V = UNIV, OF _ v
                   from_file_good_cache calls])
            (simp_all add: loaded_do_load_start Suc.prems(2) file_model_do_load_start)
        then have i2: "dom (loaded s2) \<inter> B = {}"
          and g: "\<forall>v\<in>set (import_declarations (tree (grammarSpec e contents))).
                    normalized e (Path (path_join e (dirname e ?n) (v @ ''.g4''))) \<notin> B"
          by simp_all
        from False have "import_targets e ?n \<inter> B = {}"
          using g by (auto simp: import_targets_content [OF Content])
        with tr have "?n \<notin> B" by (auto simp: trapped_def)
        with i2 l show ?thesis by simp
      qed
      moreover have "dom (loaded s') = insert ?n (dom (loaded s1))" by (simp add: s')
      ultimately show ?thesis by simp
    qed
  qed
qed

lemma from_file_hit_same:
  assumes "from_file fuel e a s = Some (Inr (m, s'))" and "loaded s (normalized e a) \<noteq> None"
  shows "s' = s"
proof (cases fuel)
  case 0
  with assms show ?thesis by (simp add: from_file.simps)
next
  case (Suc k)
  with assms show ?thesis by (auto simp: from_file_hit)
qed

lemma import_edge_mono: "D \<subseteq> D' \<Longrightarrow> import_edge e D' \<subseteq> import_edge e D"
  by (auto simp: import_edge_def)

text \<open>
  What a load of the file \<open>n\<close> memoizes before it returns is reached from \<open>n\<close> by a
  chain of imports through paths that were not memoized at the start.
\<close>

lemma do_load_memoizes_reachable:
  assumes cb: "\<forall>q s1 x s2. c q s1 = Some (Inr (x, s2)) \<longrightarrow>
                 (\<forall>p\<in>dom (loaded s2) - dom (loaded s1).
                    (normalized e (Path q), p) \<in> (import_edge e (dom (loaded s1)))\<^sup>*) \<and>
                 (loaded s1 (normalized e (Path q)) \<noteq> None \<longrightarrow> s2 = s1)"
    and good: "good_cache c"
    and d: "do_load e c contents n off False s = Some (Inr (m, s1))"
    and f: "file_at e n = Content contents"
    and miss: "loaded s n = None"
  shows "\<forall>p\<in>dom (loaded s1) - dom (loaded s). (n, p) \<in> (import_edge e (dom (loaded s)))\<^sup>+"
proof (cases "number_of_syntax_errors (grammarSpec e contents) \<noteq> 0")
  case True
  with do_load_returns [OF d] have "loaded s1 = loaded s" by simp
  then show ?thesis by simp
next
  case False
  let ?D = "dom (loaded s)"
  let ?E = "import_edge e ?D"
  let ?I = "\<lambda>t. ?D \<subseteq> dom (loaded t) \<and> (\<forall>p\<in>dom (loaded t) - ?D. (n, p) \<in> ?E\<^sup>+)"
  let ?V = "set (import_declarations (tree (grammarSpec e contents)))"
  let ?start = "do_load_start e contents n off False s"
  from do_load_returns [OF d] False obtain s2
    where v: "MetaLoader_visit e c (length (heap s)) (tree (grammarSpec e contents)) ?start
                = Some (Inr s2)"
      and l: "loaded s1 = loaded s2"
    by auto
  have calls: "\<forall>v\<in>?V. \<forall>sa x sb. ?I sa \<longrightarrow>
                 c (path_join e (dirname e n) (v @ ''.g4'')) sa = Some (Inr (x, sb)) \<longrightarrow>
                 ?I sb \<and> True"
  proof (intro ballI allI impI)
    fix v sa x sb
    let ?q = "path_join e (dirname e n) (v @ ''.g4'')"
    let ?nq = "normalized e (Path ?q)"
    assume v: "v \<in> ?V" and i: "?I sa" and r: "c ?q sa = Some (Inr (x, sb))"
    from good r have fr: "frame_except {} sa sb" by (auto simp: good_cache_def)
    then have sub: "dom (loaded sa) \<subseteq> dom (loaded sb)" by (auto simp: frame_except_def)
    have "(n, p) \<in> ?E\<^sup>+" if p: "p \<in> dom (loaded sb) - ?D" for p
    proof (cases "p \<in> dom (loaded sa)")
      case True
      with i p show ?thesis by simp
    next
      case new: False
      with p have pn: "p \<in> dom (loaded sb) - dom (loaded sa)" by simp
      from cb r pn have reach: "(?nq, p) \<in> (import_edge e (dom (loaded sa)))\<^sup>*"
        and hit: "loaded sa ?nq \<noteq> None \<longrightarrow> sb = sa"
        by blast+
      from hit pn have "loaded sa ?nq = None" by auto
      with i have nq: "?nq \<notin> ?D" by auto
      from v False have "?nq \<in> import_targets e n"
        by (simp add: import_targets_content [OF f])
      with nq miss have first: "(n, ?nq) \<in> ?E" by (auto simp: import_edge_def)
      from i have "import_edge e (dom (loaded sa)) \<subseteq> ?E" by (intro import_edge_mono) simp
      then have "(import_edge e (dom (loaded sa)))\<^sup>* \<subseteq> ?E\<^sup>*" by (rule rtrancl_mono)
      with reach have "(?nq, p) \<in> ?E\<^sup>*" by blast
      with first show ?thesis by (rule rtrancl_into_trancl2)
    qed
    moreover from i sub have "?D \<subseteq> dom (loaded sb)" by blast
    ultimately show "?I sb \<and> True" by blast
  qed
  have "?I s2 \<and> file_model (length (heap s)) n s2 \<and> (\<forall>v\<in>?V. True)"
    by (rule MetaLoader_pass_rule(1) [where I = ?I and V = ?V, OF _ v good calls])
      (simp_all add: loaded_do_load_start file_model_do_load_start)
  with l show ?thesis by simp
qed

lemma from_file_memoizes_reachable:
  "from_file fuel e a s = Some (Inr (m, s')) \<Longrightarrow>
   \<forall>p\<in>dom (loaded s') - dom (loaded s).
      (normalized e a, p) \<in> (import_edge e (dom (loaded s)))\<^sup>*"
proof (induction fuel arbitrary: a s m s')
  case 0
  then show ?case by (simp add: from_file.simps)
next
  case (Suc fuel)
  let ?n = "normalized e a"
  let ?c = "\<lambda>q. from_file fuel e (Path q)"
  show ?case
  proof (cases "loaded s ?n")
    case (Some x)
    with Suc.prems have "s' = s" by (simp add: from_file_hit)
    then show ?thesis by simp
  next
    case None
    show ?thesis
    proof (cases "file_at e ?n")
      case Missing
      with Suc.prems None have "loaded s' = (loaded s)(?n \<mapsto> m)"
        by (auto simp: from_file_missing)
      then have "dom (loaded s') = insert ?n (dom (loaded s))" by simp
      then show ?thesis by auto
    next
      case (Unreadable err)
      with Suc.prems None show ?thesis by (simp add: from_file_unreadable)
    next
      case (Content contents)
      from Suc.prems None Content obtain s1
        where d: "do_load e ?c contents ?n (snd (path_and_offset a)) False s
                    = Some (Inr (m, s1))"
          and s': "s' = s1\<lparr>loaded := (loaded s1)(?n \<mapsto> m)\<rparr>"
        by (auto simp: from_file_content split: option.splits sum.splits)
      have "(\<forall>p\<in>dom (loaded s2) - dom (loaded sa).
                    (normalized e (Path q), p) \<in> (import_edge e (dom (loaded sa)))\<^sup>*) \<and>
                 (loaded sa (normalized e (Path q)) \<noteq> None \<longrightarrow> s2 = sa)"
        if "?c q sa = Some (Inr (x, s2))" for q sa x s2
        using Suc.IH [OF that] from_file_hit_same [OF that] by blast
      then have cb: "\<forall>q sa x s2. ?c q sa = Some (Inr (x, s2)) \<longrightarrow>
                 (\<forall>p\<in>dom (loaded s2) - dom (loaded sa).
                    (normalized e (Path q), p) \<in> (import_edge e (dom (loaded sa)))\<^sup>*) \<and>
                 (loaded sa (normalized e (Path q)) \<noteq> None \<longrightarrow> s2 = sa)"
        by blast
      from do_load_memoizes_reachable [OF cb from_file_good_cache d Content None]
      have inner: "\<forall>p\<in>dom (loaded s1) - dom (loaded s).
                     (?n, p) \<in> (import_edge e (dom (loaded s)))\<^sup>+"
        by blast
      have d': "dom (loaded s') = insert ?n (dom (loaded s1))" by (simp add: s')
      show ?thesis
      proof
        fix p
        assume "p \<in> dom (loaded s') - dom (loaded s)"
        with d' have "p = ?n \<or> p \<in> dom (loaded s1) - dom (loaded s)" by auto
        with inner show "(?n, p) \<in> (import_edge e (dom (loaded s)))\<^sup>*"
          by (auto intro: trancl_into_rtrancl)
      qed
    qed
  qed
qed

text \<open>
  When \<^verbatim>\<open>from_file\<close> loads a file and returns, the path of the file is still not
  memoized when \<^verbatim>\<open>_do_load\<close> comes back: a nested call on the same path would not
  have returned. So the assignment of line 64 never replaces a memoized model.
\<close>

lemma from_file_clean:
  assumes r: "from_file (Suc fuel) e a s = Some (Inr (m, s'))"
    and miss: "loaded s (normalized e a) = None"
    and f: "file_at e (normalized e a) = Content contents"
  shows "\<exists>s1. do_load e (\<lambda>q. from_file fuel e (Path q)) contents (normalized e a)
                 (snd (path_and_offset a)) False s = Some (Inr (m, s1)) \<and>
              loaded s1 (normalized e a) = None \<and>
              s' = s1\<lparr>loaded := (loaded s1)(normalized e a \<mapsto> m)\<rparr>"
proof -
  let ?n = "normalized e a"
  let ?c = "\<lambda>q. from_file fuel e (Path q)"
  let ?E = "import_edge e (dom (loaded s))"
  from r miss f obtain s1
    where d: "do_load e ?c contents ?n (snd (path_and_offset a)) False s = Some (Inr (m, s1))"
      and s': "s' = s1\<lparr>loaded := (loaded s1)(?n \<mapsto> m)\<rparr>"
    by (auto simp: from_file_content split: option.splits sum.splits)
  have "(\<forall>p\<in>dom (loaded s2) - dom (loaded sa).
                (normalized e (Path q), p) \<in> (import_edge e (dom (loaded sa)))\<^sup>*) \<and>
             (loaded sa (normalized e (Path q)) \<noteq> None \<longrightarrow> s2 = sa)"
    if "?c q sa = Some (Inr (x, s2))" for q sa x s2
    using from_file_memoizes_reachable [OF that] from_file_hit_same [OF that] by blast
  then have cb: "\<forall>q sa x s2. ?c q sa = Some (Inr (x, s2)) \<longrightarrow>
             (\<forall>p\<in>dom (loaded s2) - dom (loaded sa).
                (normalized e (Path q), p) \<in> (import_edge e (dom (loaded sa)))\<^sup>*) \<and>
             (loaded sa (normalized e (Path q)) \<noteq> None \<longrightarrow> s2 = sa)"
    by blast
  from do_load_memoizes_reachable [OF cb from_file_good_cache d f miss]
  have reach: "\<forall>p\<in>dom (loaded s1) - dom (loaded s). (?n, p) \<in> ?E\<^sup>+"
    by blast
  have "loaded s1 ?n = None"
  proof (rule ccontr)
    assume "loaded s1 ?n \<noteq> None"
    with miss reach have cyc: "(?n, ?n) \<in> ?E\<^sup>+" by auto
    let ?B = "{p. (p, ?n) \<in> ?E\<^sup>+}"
    have "trapped e ?B"
      unfolding trapped_def
    proof
      fix b
      assume "b \<in> ?B"
      then have "(b, ?n) \<in> ?E\<^sup>+" by simp
      then obtain z where bz: "(b, z) \<in> ?E" and zn: "(z, ?n) \<in> ?E\<^sup>*"
        by (auto dest: tranclD)
      from zn cyc have "z \<in> ?B" by (auto dest: rtranclD)
      moreover from bz have "z \<in> import_targets e b" by (simp add: import_edge_def)
      ultimately show "import_targets e b \<inter> ?B \<noteq> {}" by blast
    qed
    moreover have "dom (loaded s) \<inter> ?B = {}"
    proof -
      have "b \<notin> dom (loaded s)" if "b \<in> ?B" for b
      proof -
        from that have "(b, ?n) \<in> ?E\<^sup>+" by simp
        then obtain z where "(b, z) \<in> ?E" by (auto dest: tranclD)
        then show ?thesis by (simp add: import_edge_def)
      qed
      then show ?thesis by blast
    qed
    ultimately have "?n \<notin> ?B" using from_file_never_trapped [OF _ r] by blast
    with cyc show False by simp
  qed
  with d s' show ?thesis by blast
qed

lemma ext_refl: "ext s s"
  by (simp add: ext_def)

lemma ext_trans: "ext s s1 \<Longrightarrow> ext s1 s2 \<Longrightarrow> ext s s2"
  by (simp add: ext_def)

lemma ext_loaded: "loaded s' = loaded s \<Longrightarrow> ext s s'"
  by (simp add: ext_def)

lemma ext_frame: "frame_except A s s' \<Longrightarrow> ext s s'"
  by (simp add: ext_def frame_except_def)

lemma trace_ok_nil: "ext s s' \<Longrightarrow> trace_ok s [] (Some s')"
  by (simp add: trace_ok_def)

lemma trace_ok_none: "trace_ok s evs res \<Longrightarrow> trace_ok s evs None"
  by (simp add: trace_ok_def)

lemma trace_ok_append:
  assumes a: "trace_ok s evs1 (Some s1)" and b: "trace_ok s1 evs2 res"
  shows "trace_ok s (evs1 @ evs2) res"
proof -
  let ?P = "\<lambda>x y. ext (event_state x) (event_state y)"
  from a have a1: "sorted_wrt ?P evs1" and a2: "\<forall>ev\<in>set evs1. ext s (event_state ev)"
    and a3: "\<forall>n m t. Exit n m t \<in> set evs1 \<longrightarrow> loaded t n = Some m"
    and a4: "ext s s1" and a5: "\<forall>ev\<in>set evs1. ext (event_state ev) s1"
    by (simp_all add: trace_ok_def)
  from b have b1: "sorted_wrt ?P evs2" and b2: "\<forall>ev\<in>set evs2. ext s1 (event_state ev)"
    and b3: "\<forall>n m t. Exit n m t \<in> set evs2 \<longrightarrow> loaded t n = Some m"
    and b4: "case res of None \<Rightarrow> True
             | Some s' \<Rightarrow> ext s1 s' \<and> (\<forall>ev\<in>set evs2. ext (event_state ev) s')"
    by (simp_all add: trace_ok_def)
  have c1: "sorted_wrt ?P (evs1 @ evs2)"
    using a1 b1 a5 b2 by (auto simp: sorted_wrt_append intro: ext_trans)
  have c2: "\<forall>ev\<in>set (evs1 @ evs2). ext s (event_state ev)"
    using a2 a4 b2 by (auto intro: ext_trans)
  have c3: "\<forall>n m t. Exit n m t \<in> set (evs1 @ evs2) \<longrightarrow> loaded t n = Some m"
    using a3 b3 by auto
  have c4: "case res of None \<Rightarrow> True
            | Some s' \<Rightarrow> ext s s' \<and> (\<forall>ev\<in>set (evs1 @ evs2). ext (event_state ev) s')"
  proof (cases res)
    case None
    then show ?thesis by simp
  next
    case (Some s')
    with b4 have e: "ext s1 s'" and f: "\<forall>ev\<in>set evs2. ext (event_state ev) s'" by simp_all
    from a4 e have "ext s s'" by (rule ext_trans)
    moreover have "\<forall>ev\<in>set (evs1 @ evs2). ext (event_state ev) s'"
      using a5 e f by (auto intro: ext_trans)
    ultimately show ?thesis using Some by simp
  qed
  from c1 c2 c3 c4 show ?thesis unfolding trace_ok_def by blast
qed

lemma trace_ok_pre: "ext s s1 \<Longrightarrow> trace_ok s1 evs res \<Longrightarrow> trace_ok s evs res"
  using trace_ok_append [OF trace_ok_nil, of s s1 evs res] by simp

lemma trace_ok_post: "trace_ok s evs (Some s1) \<Longrightarrow> ext s1 s2 \<Longrightarrow> trace_ok s evs (Some s2)"
  using trace_ok_append [OF _ trace_ok_nil, of s evs s1 s2] by simp

lemma trace_ok_Enter: "trace_ok s [Enter n s] (Some s)"
  by (simp add: trace_ok_def ext_refl)

lemma trace_ok_Exit: "ext s s' \<Longrightarrow> loaded s' n = Some m \<Longrightarrow> trace_ok s [Exit n m s'] (Some s')"
  by (simp add: trace_ok_def ext_refl)

lemma MetaLoader_add_import_trace_ok:
  assumes cb: "\<forall>q s. trace_ok s (tr q s) (final_state (c q s))"
  shows "trace_ok s (MetaLoader_add_import_trace e tr self v s)
           (returned (MetaLoader_add_import e c self v s))"
proof (cases "in_memory (heap s ! self)")
  case True
  then show ?thesis
    by (simp add: MetaLoader_add_import_trace_def MetaLoader_add_import_def returned_def
        trace_ok_nil ext_loaded log_all_def)
next
  case False
  let ?q = "path_join e (dirname e (path (heap s ! self))) (v @ ''.g4'')"
  from cb have t: "trace_ok s (tr ?q s) (final_state (c ?q s))" by blast
  have tr: "MetaLoader_add_import_trace e tr self v s = tr ?q s"
    using False by (simp add: MetaLoader_add_import_trace_def)
  show ?thesis
  proof (cases "returned (MetaLoader_add_import e c self v s)")
    case None
    with t show ?thesis unfolding tr by (simp add: trace_ok_none)
  next
    case (Some s')
    then have r: "MetaLoader_add_import e c self v s = Some (Inr s')"
      by (auto simp: returned_def split: option.splits sum.splits)
    with False obtain m s1 where c: "c ?q s = Some (Inr (m, s1))"
      and a: "add_import self m s1 = Inr s'"
      by (auto simp: MetaLoader_add_import_def split: option.splits sum.splits)
    from a have "loaded s' = loaded s1"
      by (auto simp: add_import_def update_model_def split: if_splits)
    then have "ext s1 s'" by (rule ext_loaded)
    moreover from t c have "trace_ok s (tr ?q s) (Some s1)" by (simp add: final_state_def)
    ultimately have "trace_ok s (tr ?q s) (Some s')" by (rule trace_ok_post [rotated])
    with Some show ?thesis unfolding tr by simp
  qed
qed

lemma MetaLoader_trace_ok:
  shows "\<forall>q s. trace_ok s (tr q s) (final_state (c q s)) \<Longrightarrow>
           trace_ok s (MetaLoader_trace e c tr self t s) (returned (MetaLoader_visit e c self t s))"
    and "\<forall>q s. trace_ok s (tr q s) (final_state (c q s)) \<Longrightarrow>
           trace_ok s (MetaLoader_traceChildren e c tr self ts s)
             (returned (MetaLoader_visitChildren e c self ts s))"
proof (induction e c self t s and e c self ts s
    rule: MetaLoader_visit_MetaLoader_visitChildren.induct)
  case (4 e c self nm v line s)
  then show ?case
    by (simp add: MetaLoader_add_import_trace_ok) (simp add: returned_def trace_ok_nil ext_refl)
next
  case (5 e c self v line s)
  then show ?case by (simp add: MetaLoader_add_import_trace_ok)
next
  case (6 e c self defs s)
  show ?case
    by (simp add: returned_def trace_ok_nil ext_loaded loaded_visitTokensSpec)
next
  case (10 e c self child children s)
  have 1: "trace_ok s (MetaLoader_trace e c tr self child s)
             (returned (MetaLoader_visit e c self child s))"
    using "10.IH"(1) "10.prems" by blast
  show ?case
  proof (cases "returned (MetaLoader_visit e c self child s)")
    case None
    then have "MetaLoader_traceChildren e c tr self (child # children) s
                 = MetaLoader_trace e c tr self child s"
      and "returned (MetaLoader_visitChildren e c self (child # children) s) = None"
      by (auto simp: returned_def split: option.splits sum.splits)
    with 1 show ?thesis by (simp add: trace_ok_none)
  next
    case (Some s1)
    then have a: "MetaLoader_visit e c self child s = Some (Inr s1)"
      by (auto simp: returned_def split: option.splits sum.splits)
    have 2: "trace_ok s1 (MetaLoader_traceChildren e c tr self children s1)
               (returned (MetaLoader_visitChildren e c self children s1))"
      using "10.IH"(2) [OF a refl] "10.prems" by blast
    from 1 Some have "trace_ok s (MetaLoader_trace e c tr self child s) (Some s1)" by simp
    from trace_ok_append [OF this 2] show ?thesis by (simp add: a)
  qed
qed (simp_all add: returned_def trace_ok_nil ext_refl)

lemma do_load_trace_ok:
  assumes cb: "\<forall>q s. trace_ok s (tr q s) (final_state (c q s))"
  shows "trace_ok s (do_load_trace e c tr txt p off in_mem s)
           (final_state (do_load e c txt p off in_mem s))"
proof (cases "number_of_syntax_errors (grammarSpec e txt) \<noteq> 0")
  case True
  then show ?thesis
    by (simp add: do_load_trace_def do_load_syntax_error final_state_def trace_ok_nil ext_loaded)
next
  case False
  let ?start = "do_load_start e txt p off in_mem s"
  let ?t = "MetaLoader_trace e c tr (length (heap s)) (tree (grammarSpec e txt)) ?start"
  let ?v = "MetaLoader_visit e c (length (heap s)) (tree (grammarSpec e txt)) ?start"
  have tr: "do_load_trace e c tr txt p off in_mem s = ?t"
    using False by (simp add: do_load_trace_def)
  have 1: "trace_ok ?start ?t (returned ?v)"
    using cb by (rule MetaLoader_trace_ok(1))
  have pre: "ext s ?start" by (simp add: ext_loaded loaded_do_load_start)
  show ?thesis
  proof (cases "final_state (do_load e c txt p off in_mem s)")
    case None
    from 1 have "trace_ok s ?t None" using pre by (blast intro: trace_ok_pre trace_ok_none)
    with None show ?thesis unfolding tr by simp
  next
    case (Some s')
    then obtain m where d: "do_load e c txt p off in_mem s = Some (Inr (m, s'))"
      by (auto simp: final_state_def split: option.splits sum.splits)
    from do_load_returns [OF d] False obtain s2
      where v: "?v = Some (Inr s2)" and l: "loaded s' = loaded s2"
      by auto
    from 1 v have "trace_ok ?start ?t (Some s2)" by (simp add: returned_def)
    then have "trace_ok ?start ?t (Some s')" using l by (blast intro: trace_ok_post ext_loaded)
    with pre have "trace_ok s ?t (Some s')" by (rule trace_ok_pre)
    with Some show ?thesis unfolding tr by simp
  qed
qed

lemma from_file_trace_Suc:
  "from_file_trace (Suc fuel) e a s =
     Enter (normalized e a) s #
     (case loaded s (normalized e a) of
        Some m \<Rightarrow> []
      | None \<Rightarrow>
          (case file_at e (normalized e a) of
             Content txt \<Rightarrow>
               do_load_trace e (\<lambda>q. from_file fuel e (Path q))
                 (\<lambda>q. from_file_trace fuel e (Path q)) txt (normalized e a)
                 (snd (path_and_offset a)) False s
           | other \<Rightarrow> [])) @
     (case from_file (Suc fuel) e a s of
        Some (Inr (m, s')) \<Rightarrow> [Exit (normalized e a) m s']
      | other \<Rightarrow> [])"
  by (simp add: Let_def)

declare from_file_trace.simps(2) [simp del]

lemma final_state_cases:
  obtains (fails) "final_state r = None" "\<not> returns r"
  | (returns) m s' where "r = Some (Inr (m, s'))" "final_state r = Some s'"
proof (cases r)
  case None
  then show ?thesis using fails by (simp add: final_state_def returns_def)
next
  case (Some x)
  show ?thesis
  proof (cases x)
    case (Inl err)
    with Some show ?thesis using fails by (simp add: final_state_def returns_def)
  next
    case (Inr b)
    with Some show ?thesis using returns [of "fst b" "snd b"]
      by (simp add: final_state_def split_beta)
  qed
qed

text \<open>
  Along the events of a call of \<^verbatim>\<open>from_file\<close> the memo only grows, from the state
  of the call on and up to the state it returns, and a model that a call returns is
  memoized under the path of the call.
\<close>

lemma from_file_trace_ok:
  "trace_ok s (from_file_trace fuel e a s) (final_state (from_file fuel e a s))"
proof (induction fuel arbitrary: a s)
  case 0
  show ?case by (simp add: from_file.simps final_state_def trace_ok_def ext_refl)
next
  case (Suc fuel)
  let ?n = "normalized e a"
  let ?c = "\<lambda>q. from_file fuel e (Path q)"
  let ?tr = "\<lambda>q. from_file_trace fuel e (Path q)"
  have cb: "\<forall>q s. trace_ok s (?tr q s) (final_state (?c q s))"
    using Suc.IH by blast
  show ?case
  proof (cases "loaded s ?n")
    case (Some x)
    have "trace_ok s ([Enter ?n s] @ [Exit ?n x s]) (Some s)"
      using trace_ok_Enter trace_ok_Exit [OF ext_refl Some] by (rule trace_ok_append)
    then show ?thesis
      by (simp add: from_file_trace_Suc Some from_file_hit [OF Some] final_state_def)
  next
    case None
    show ?thesis
    proof (cases "file_at e ?n")
      case Missing
      let ?s' = "s\<lparr>logged := logged s @ [(Error, FileNotFound ?n)],
                   heap := heap s @ [ModelImpl ?n (snd (path_and_offset a)) False],
                   loaded := (loaded s)(?n \<mapsto> length (heap s))\<rparr>"
      have "ext s ?s'" using None by (auto simp: ext_def)
      moreover have "loaded ?s' ?n = Some (length (heap s))" by simp
      ultimately have "trace_ok s [Exit ?n (length (heap s)) ?s'] (Some ?s')"
        by (rule trace_ok_Exit)
      with trace_ok_Enter
      have "trace_ok s ([Enter ?n s] @ [Exit ?n (length (heap s)) ?s']) (Some ?s')"
        by (rule trace_ok_append)
      then show ?thesis
        by (simp add: from_file_trace_Suc None Missing from_file_missing [OF None Missing]
            final_state_def)
    next
      case (Unreadable err)
      then show ?thesis
        by (simp add: from_file_trace_Suc None from_file_unreadable [OF None Unreadable]
            final_state_def trace_ok_def ext_refl)
    next
      case (Content contents)
      let ?d = "do_load e ?c contents ?n (snd (path_and_offset a)) False s"
      let ?t = "do_load_trace e ?c ?tr contents ?n (snd (path_and_offset a)) False s"
      have t: "trace_ok s ?t (final_state ?d)"
        using cb by (rule do_load_trace_ok)
      show ?thesis
      proof (cases "from_file (Suc fuel) e a s" rule: final_state_cases)
        case fails
        then have "from_file_trace (Suc fuel) e a s = [Enter ?n s] @ ?t"
          by (auto simp: from_file_trace_Suc None Content returns_def
              split: option.splits sum.splits)
        moreover have "trace_ok s ([Enter ?n s] @ ?t) None"
          using trace_ok_Enter trace_ok_none [OF t] by (rule trace_ok_append)
        ultimately show ?thesis using fails by simp
      next
        case (returns m s')
        from from_file_clean [OF returns(1) None Content] obtain s1
          where d: "?d = Some (Inr (m, s1))" and clean: "loaded s1 ?n = None"
            and s': "s' = s1\<lparr>loaded := (loaded s1)(?n \<mapsto> m)\<rparr>"
          by blast
        from t d have 1: "trace_ok s ?t (Some s1)" by (simp add: final_state_def)
        have "ext s1 s'" using clean by (auto simp: ext_def s')
        moreover have "loaded s' ?n = Some m" by (simp add: s')
        ultimately have 2: "trace_ok s1 [Exit ?n m s'] (Some s')" by (rule trace_ok_Exit)
        have "trace_ok s ([Enter ?n s] @ ?t @ [Exit ?n m s']) (Some s')"
          using trace_ok_Enter trace_ok_append [OF 1 2] by (rule trace_ok_append)
        moreover have "from_file_trace (Suc fuel) e a s = [Enter ?n s] @ ?t @ [Exit ?n m s']"
          by (simp add: from_file_trace_Suc None Content returns(1))
        ultimately show ?thesis using returns(2) by simp
      qed
    qed
  qed
qed

lemma from_text_trace_ok:
  "trace_ok s (from_text_trace fuel e txt a s) (final_state (from_text fuel e txt a s))"
proof -
  have "\<forall>q s. trace_ok s (from_file_trace fuel e (Path q) s)
                 (final_state (from_file fuel e (Path q) s))"
    using from_file_trace_ok by blast
  then show ?thesis
    unfolding from_text_trace_def from_text_def
    by (cases "path_and_offset a") (simp add: do_load_trace_ok)
qed

lemma trace_ok_fails:
  assumes t: "trace_ok s evs res" and l: "loaded s' = memo_after s evs"
  shows "trace_ok s evs (Some s')"
proof (cases "evs = []")
  case True
  with l show ?thesis by (simp add: memo_after_def trace_ok_nil ext_loaded)
next
  case False
  with l have l': "loaded s' = loaded (event_state (last evs))" by (simp add: memo_after_def)
  let ?P = "\<lambda>x y. ext (event_state x) (event_state y)"
  from t have a1: "sorted_wrt ?P evs" and a2: "\<forall>ev\<in>set evs. ext s (event_state ev)"
    and a3: "\<forall>n m t. Exit n m t \<in> set evs \<longrightarrow> loaded t n = Some m"
    by (simp_all add: trace_ok_def)
  have le: "ext (event_state ev) (event_state (last evs))" if "ev \<in> set evs" for ev
  proof -
    from that obtain i where i: "i < length evs" "evs ! i = ev" by (auto simp: in_set_conv_nth)
    show ?thesis
    proof (cases "i = length evs - 1")
      case True
      with i False show ?thesis by (simp add: last_conv_nth ext_refl)
    next
      case ne: False
      with i have "i < length evs - 1" by simp
      with a1 i False show ?thesis
        by (auto simp: sorted_wrt_iff_nth_less last_conv_nth)
    qed
  qed
  have "ext (event_state (last evs)) s'" using l' by (simp add: ext_def)
  with le have b: "\<forall>ev\<in>set evs. ext (event_state ev) s'" by (blast intro: ext_trans)
  from False have "last evs \<in> set evs" by simp
  with a2 have "ext s (event_state (last evs))" by blast
  then have "ext s s'" using \<open>ext (event_state (last evs)) s'\<close> by (rule ext_trans)
  with a1 a2 a3 b show ?thesis by (simp add: trace_ok_def)
qed

lemma run_trace_ok: "run s0 evs s \<Longrightarrow> trace_ok s0 evs (Some s)"
proof (induction rule: run.induct)
  case (start s)
  show ?case by (simp add: trace_ok_nil ext_refl)
next
  case (from_file_returns s0 evs s fuel e a m s')
  from from_file_trace_ok [of s fuel e a] from_file_returns.hyps(2)
  have "trace_ok s (from_file_trace fuel e a s) (Some s')" by (simp add: final_state_def)
  with from_file_returns.IH show ?case by (rule trace_ok_append)
next
  case (from_file_fails s0 evs s fuel e a s')
  from from_file_trace_ok [of s fuel e a] from_file_fails.hyps(3)
  have "trace_ok s (from_file_trace fuel e a s) (Some s')" by (rule trace_ok_fails)
  with from_file_fails.IH show ?case by (rule trace_ok_append)
next
  case (from_text_returns s0 evs s fuel e contents a m s')
  from from_text_trace_ok [of s fuel e contents a] from_text_returns.hyps(2)
  have "trace_ok s (from_text_trace fuel e contents a s) (Some s')" by (simp add: final_state_def)
  with from_text_returns.IH show ?case by (rule trace_ok_append)
next
  case (from_text_fails s0 evs s fuel e contents a s')
  from from_text_trace_ok [of s fuel e contents a] from_text_fails.hyps(3)
  have "trace_ok s (from_text_trace fuel e contents a s) (Some s')" by (rule trace_ok_fails)
  with from_text_fails.IH show ?case by (rule trace_ok_append)
qed

text \<open>
  The events are those of the calls: an \<open>Enter\<close> is a call of \<^verbatim>\<open>from_file\<close> on an
  argument with that normalized path in that state, an \<open>Exit\<close> is such a call returning
  that model and that state.
\<close>

lemma MetaLoader_trace_events:
  shows "ev \<in> set (MetaLoader_trace e c tr self t s) \<Longrightarrow> \<exists>q s1. ev \<in> set (tr q s1)"
    and "ev \<in> set (MetaLoader_traceChildren e c tr self ts s) \<Longrightarrow> \<exists>q s1. ev \<in> set (tr q s1)"
proof (induction e c tr self t s and e c tr self ts s
    rule: MetaLoader_trace_MetaLoader_traceChildren.induct)
  case (4 e c tr self nm v line s)
  then show ?case
    by (auto simp: MetaLoader_add_import_trace_def split: if_splits)
next
  case (5 e c tr self v line s)
  then show ?case
    by (auto simp: MetaLoader_add_import_trace_def split: if_splits)
next
  case (10 e c tr self child children s)
  show ?case
  proof (cases "ev \<in> set (MetaLoader_trace e c tr self child s)")
    case True
    then show ?thesis by (rule "10.IH"(1))
  next
    case False
    with "10.prems" obtain s1 where a: "MetaLoader_visit e c self child s = Some (Inr s1)"
      and b: "ev \<in> set (MetaLoader_traceChildren e c tr self children s1)"
      by (cases "MetaLoader_visit e c self child s") (auto split: sum.splits)
    from "10.IH"(2) [OF a refl b] show ?thesis .
  qed
qed simp_all

lemma from_file_trace_events:
  "ev \<in> set (from_file_trace fuel e a s) \<Longrightarrow>
   (case ev of
      Enter n s1 \<Rightarrow> \<exists>fuel' a'. normalized e a' = n \<and> hd (from_file_trace fuel' e a' s1) = ev
    | Exit n m s' \<Rightarrow>
        \<exists>fuel' a' s1. normalized e a' = n \<and> from_file fuel' e a' s1 = Some (Inr (m, s')))"
proof (induction fuel arbitrary: a s)
  case 0
  then have "ev = Enter (normalized e a) s" by simp
  moreover have "hd (from_file_trace 0 e a s) = Enter (normalized e a) s" by simp
  ultimately have "\<exists>fuel' a'. normalized e a' = normalized e a \<and>
                     hd (from_file_trace fuel' e a' s) = ev"
    by blast
  with \<open>ev = Enter (normalized e a) s\<close> show ?case by simp
next
  case (Suc fuel)
  let ?n = "normalized e a"
  let ?inner = "case loaded s ?n of
        Some m \<Rightarrow> []
      | None \<Rightarrow>
          (case file_at e ?n of
             Content txt \<Rightarrow>
               do_load_trace e (\<lambda>q. from_file fuel e (Path q))
                 (\<lambda>q. from_file_trace fuel e (Path q)) txt ?n
                 (snd (path_and_offset a)) False s
           | other \<Rightarrow> [])"
  let ?exit = "case from_file (Suc fuel) e a s of
        Some (Inr (m, s')) \<Rightarrow> [Exit ?n m s']
      | other \<Rightarrow> []"
  from Suc.prems consider "ev = Enter ?n s" | "ev \<in> set ?inner" | "ev \<in> set ?exit"
    by (auto simp: from_file_trace_Suc)
  then show ?case
  proof cases
    case 1
    moreover have "hd (from_file_trace (Suc fuel) e a s) = Enter ?n s"
      by (simp add: from_file_trace_Suc)
    ultimately have "\<exists>fuel' a'. normalized e a' = ?n \<and> hd (from_file_trace fuel' e a' s) = ev"
      by blast
    with 1 show ?thesis by simp
  next
    case 2
    then obtain contents
      where "ev \<in> set (MetaLoader_trace e (\<lambda>q. from_file fuel e (Path q))
                        (\<lambda>q. from_file_trace fuel e (Path q)) (length (heap s))
                        (tree (grammarSpec e contents))
                        (do_load_start e contents ?n (snd (path_and_offset a)) False s))"
      by (auto simp: do_load_trace_def Let_def split: option.splits disk_file.splits if_splits)
    from MetaLoader_trace_events(1) [OF this]
    obtain q s1 where "ev \<in> set (from_file_trace fuel e (Path q) s1)" by blast
    then show ?thesis by (rule Suc.IH)
  next
    case 3
    then have "\<exists>m s'. from_file (Suc fuel) e a s = Some (Inr (m, s')) \<and> ev = Exit ?n m s'"
      by (cases "from_file (Suc fuel) e a s" rule: final_state_cases)
        (auto simp: returns_def split: option.splits sum.splits)
    then obtain m s' where "from_file (Suc fuel) e a s = Some (Inr (m, s'))"
      and "ev = Exit ?n m s'"
      by blast
    then show ?thesis by auto
  qed
qed

lemma case_ExitE:
  assumes "case ev of Exit n m s \<Rightarrow> P n m s | other \<Rightarrow> False"
  obtains n m s where "ev = Exit n m s" and "P n m s"
  using assms by (cases ev) simp_all

lemma case_EnterE:
  assumes "case ev of Enter n s \<Rightarrow> P n s | other \<Rightarrow> False"
  obtains n s where "ev = Enter n s" and "P n s"
  using assms by (cases ev) simp_all

lemma from_file_trace_ends:
  "from_file_trace fuel e a s \<noteq> [] \<and>
   hd (from_file_trace fuel e a s) = Enter (normalized e a) s \<and>
   (\<forall>m s'. from_file fuel e a s = Some (Inr (m, s')) \<longrightarrow>
      last (from_file_trace fuel e a s) = Exit (normalized e a) m s')"
proof (cases fuel)
  case 0
  then show ?thesis by (simp add: from_file.simps)
next
  case (Suc k)
  then show ?thesis by (auto simp: from_file_trace_Suc)
qed

text \<open>
  C2. In every run of the cache, whatever the top-level calls of \<^verbatim>\<open>from_file\<close> and
  \<^verbatim>\<open>from_text\<close> were and whether they returned, raised or found no fuel: when a call
  of \<^verbatim>\<open>from_file\<close>, top-level or nested in another load, has returned the model
  \<open>m\<close> for the normalized path \<open>n\<close> (event \<open>i\<close>), and a call of \<^verbatim>\<open>from_file\<close>,
  top-level or nested, is entered later with the same normalized path (event \<open>j\<close>, in
  the state \<open>s2\<close>), then that call, in whatever environment and with whatever argument
  that normalizes to \<open>n\<close>, returns the same object \<open>m\<close>, for every positive fuel, and
  leaves the state as it is: nothing is parsed again, nothing is logged, no object is made.
\<close>

theorem from_file_memoized:
  assumes "run s0 evs s" and "i < j" and "j < length evs"
    and "evs ! i = Exit n m s1" and "evs ! j = Enter n s2"
    and "normalized e a = n"
  shows "from_file (Suc fuel) e a s2 = Some (Inr (m, s2))"
proof -
  from assms(1) have t: "trace_ok s0 evs (Some s)" by (rule run_trace_ok)
  from assms(2,3) have i: "i < length evs" by simp
  with assms(4) have "Exit n m s1 \<in> set evs" by (auto simp: in_set_conv_nth)
  with t have "loaded s1 n = Some m" by (simp add: trace_ok_def)
  moreover from t assms(2,3) have "ext (event_state (evs ! i)) (event_state (evs ! j))"
    by (simp add: trace_ok_def sorted_wrt_iff_nth_less)
  ultimately have "loaded s2 n = Some m" using assms(4,5) by (simp add: ext_def)
  then have "loaded s2 (normalized e a) = Some m" by (simp add: assms(6))
  then show ?thesis by (rule from_file_hit)
qed

theorem from_file_memoized_witness:
  "\<not> returns (from_file 1 example_env (Path ''Main.g4'') initial_state) \<and>
   (case from_file 2 example_env (Path ''Main.g4'') example_abandoned of
      Some (Inr (m0, s)) \<Rightarrow>
        (case example_events s ! 4 of
           Exit n m s1 \<Rightarrow>
             (case example_events s ! 6 of
                Enter n' s2 \<Rightarrow>
                  n = ''/g/Lex.g4'' \<and> n' = ''/g/Lex.g4'' \<and> m = 2 \<and> parses s2 = 3 \<and>
                  from_file 1 example_env (Path ''/g/./sub/../Lex.g4'') s2 = Some (Inr (m, s2))
              | other \<Rightarrow> False)
         | other \<Rightarrow> False)
    | other \<Rightarrow> False)"
proof -
  have n: "normalized example_env (Path ''/g/./sub/../Lex.g4'') = ''/g/Lex.g4''"
    by code_simp
  have fails: "\<not> returns (from_file 1 example_env (Path ''Main.g4'') initial_state)"
    by code_simp
  have "case from_file 2 example_env (Path ''Main.g4'') example_abandoned of
          Some (Inr (m0, s)) \<Rightarrow>
            (case from_file 1 example_env (Path ''Lex.g4'') s of
               Some (Inr (m1, s')) \<Rightarrow>
                 (case example_events s ! 4 of
                    Exit n m s1 \<Rightarrow>
                      (case example_events s ! 6 of
                         Enter n' s2 \<Rightarrow>
                           (n = ''/g/Lex.g4'' \<and> n' = ''/g/Lex.g4'' \<and> m = 2 \<and> parses s2 = 3) \<and>
                           length (example_events s) = 8
                       | other \<Rightarrow> False)
                  | other \<Rightarrow> False)
             | other \<Rightarrow> False)
        | other \<Rightarrow> False"
    by code_simp
  then obtain m0 s
    where a: "from_file 2 example_env (Path ''Main.g4'') example_abandoned = Some (Inr (m0, s))"
      and h1: "case from_file 1 example_env (Path ''Lex.g4'') s of
               Some (Inr (m1, s')) \<Rightarrow>
                 (case example_events s ! 4 of
                    Exit n m s1 \<Rightarrow>
                      (case example_events s ! 6 of
                         Enter n' s2 \<Rightarrow>
                           (n = ''/g/Lex.g4'' \<and> n' = ''/g/Lex.g4'' \<and> m = 2 \<and> parses s2 = 3) \<and>
                           length (example_events s) = 8
                       | other \<Rightarrow> False)
                  | other \<Rightarrow> False)
             | other \<Rightarrow> False"
    by (rule case_outcomeE)
  from h1 obtain m1 s'
    where b: "from_file 1 example_env (Path ''Lex.g4'') s = Some (Inr (m1, s'))"
      and h2: "case example_events s ! 4 of
                    Exit n m s1 \<Rightarrow>
                      (case example_events s ! 6 of
                         Enter n' s2 \<Rightarrow>
                           (n = ''/g/Lex.g4'' \<and> n' = ''/g/Lex.g4'' \<and> m = 2 \<and> parses s2 = 3) \<and>
                           length (example_events s) = 8
                       | other \<Rightarrow> False)
                  | other \<Rightarrow> False"
    by (rule case_outcomeE)
  from h2 obtain n m s1
    where i: "example_events s ! 4 = Exit n m s1"
      and h3: "case example_events s ! 6 of
                         Enter n' s2 \<Rightarrow>
                           (n = ''/g/Lex.g4'' \<and> n' = ''/g/Lex.g4'' \<and> m = 2 \<and> parses s2 = 3) \<and>
                           length (example_events s) = 8
                       | other \<Rightarrow> False"
    by (rule case_ExitE)
  from h3 obtain n' s2
    where j: "example_events s ! 6 = Enter n' s2"
      and c: "n = ''/g/Lex.g4'' \<and> n' = ''/g/Lex.g4'' \<and> m = 2 \<and> parses s2 = 3"
      and len: "length (example_events s) = 8"
    by (rule case_EnterE) blast
  have memo: "loaded example_abandoned
                = memo_after initial_state
                    (from_file_trace 1 example_env (Path ''Main.g4'') initial_state)"
    using from_file_trace_ends [of 1 example_env "Path ''Main.g4''" initial_state]
    by (simp add: memo_after_def example_abandoned_def)
  have "run initial_state [] initial_state" by (rule run.start)
  then have "run initial_state
               ([] @ from_file_trace 1 example_env (Path ''Main.g4'') initial_state)
               example_abandoned"
    using fails memo by (rule run.from_file_fails)
  then have "run initial_state
               (([] @ from_file_trace 1 example_env (Path ''Main.g4'') initial_state) @
                from_file_trace 2 example_env (Path ''Main.g4'') example_abandoned) s"
    using a by (rule run.from_file_returns)
  then have "run initial_state
               ((([] @ from_file_trace 1 example_env (Path ''Main.g4'') initial_state) @
                 from_file_trace 2 example_env (Path ''Main.g4'') example_abandoned) @
                from_file_trace 1 example_env (Path ''Lex.g4'') s) s'"
    using b by (rule run.from_file_returns)
  then have r: "run initial_state (example_events s) s'"
    by (simp add: example_events_def)
  have j': "example_events s ! 6 = Enter n s2" using j c by simp
  have "from_file (Suc 0) example_env (Path ''/g/./sub/../Lex.g4'') s2 = Some (Inr (m, s2))"
    using r _ _ i j'
  proof (rule from_file_memoized)
    show "(4::nat) < 6" by simp
    show "6 < length (example_events s)" by (simp add: len)
    show "normalized example_env (Path ''/g/./sub/../Lex.g4'') = n" using n c by simp
  qed
  then have "from_file 1 example_env (Path ''/g/./sub/../Lex.g4'') s2 = Some (Inr (m, s2))"
    by (simp only: One_nat_def)
  with c fails show ?thesis
    by (simp only: a i j option.case sum.case prod.case event.case simp_thms)
qed

end
